theory Spec2Isabelle
  imports Complex_Main "HOL-Library.Product_Lexorder" "HOL-Library.Multiset"
begin

section \<open>Numeric values\<close>

text \<open>
  The program computes with numpy \<open>float64\<close> scalars. Finite values are idealised as
  real numbers (no rounding, no overflow); the special values that numpy produces
  instead of raising are kept, because the control flow of the selection engine
  depends on them: a division by zero gives an infinity or \<open>nan\<close>, and every ordered
  comparison with \<open>nan\<close> is false.
\<close>

datatype npfloat = Fin real | PInf | NInf | NaN

datatype error = ValueError string | TypeError | IndexError | AttributeError

fun np_neg :: "npfloat \<Rightarrow> npfloat" where
  "np_neg (Fin r) = Fin (- r)"
| "np_neg PInf = NInf"
| "np_neg NInf = PInf"
| "np_neg NaN = NaN"

fun np_add :: "npfloat \<Rightarrow> npfloat \<Rightarrow> npfloat" where
  "np_add (Fin a) (Fin b) = Fin (a + b)"
| "np_add NaN _ = NaN"
| "np_add _ NaN = NaN"
| "np_add PInf NInf = NaN"
| "np_add NInf PInf = NaN"
| "np_add PInf _ = PInf"
| "np_add _ PInf = PInf"
| "np_add NInf _ = NInf"
| "np_add _ NInf = NInf"

definition np_sub :: "npfloat \<Rightarrow> npfloat \<Rightarrow> npfloat" where
  "np_sub a b = np_add a (np_neg b)"

fun np_mul :: "npfloat \<Rightarrow> npfloat \<Rightarrow> npfloat" where
  "np_mul (Fin a) (Fin b) = Fin (a * b)"
| "np_mul NaN _ = NaN"
| "np_mul _ NaN = NaN"
| "np_mul PInf (Fin b) = (if b = 0 then NaN else if 0 < b then PInf else NInf)"
| "np_mul NInf (Fin b) = (if b = 0 then NaN else if 0 < b then NInf else PInf)"
| "np_mul (Fin a) PInf = (if a = 0 then NaN else if 0 < a then PInf else NInf)"
| "np_mul (Fin a) NInf = (if a = 0 then NaN else if 0 < a then NInf else PInf)"
| "np_mul PInf PInf = PInf"
| "np_mul NInf NInf = PInf"
| "np_mul PInf NInf = NInf"
| "np_mul NInf PInf = NInf"

text \<open>
  numpy scalar division does not raise: \<open>0/0\<close> is \<open>nan\<close> and \<open>a/0\<close> is an infinity
  with the sign of \<open>a\<close> (the zero divisors of this program are all \<open>+0.0\<close>).
\<close>

fun np_div :: "npfloat \<Rightarrow> npfloat \<Rightarrow> npfloat" where
  "np_div (Fin a) (Fin b) =
     (if b = 0 then (if a = 0 then NaN else if 0 < a then PInf else NInf)
      else Fin (a / b))"
| "np_div NaN _ = NaN"
| "np_div _ NaN = NaN"
| "np_div (Fin a) PInf = Fin 0"
| "np_div (Fin a) NInf = Fin 0"
| "np_div PInf (Fin b) = (if 0 \<le> b then PInf else NInf)"
| "np_div NInf (Fin b) = (if 0 \<le> b then NInf else PInf)"
| "np_div PInf PInf = NaN"
| "np_div PInf NInf = NaN"
| "np_div NInf PInf = NaN"
| "np_div NInf NInf = NaN"

fun np_lt :: "npfloat \<Rightarrow> npfloat \<Rightarrow> bool" where
  "np_lt (Fin a) (Fin b) = (a < b)"
| "np_lt NaN _ = False"
| "np_lt _ NaN = False"
| "np_lt NInf NInf = False"
| "np_lt NInf _ = True"
| "np_lt PInf _ = False"
| "np_lt (Fin a) PInf = True"
| "np_lt (Fin a) NInf = False"

fun np_eq :: "npfloat \<Rightarrow> npfloat \<Rightarrow> bool" where
  "np_eq NaN _ = False"
| "np_eq _ NaN = False"
| "np_eq a b = (a = b)"

definition np_gt :: "npfloat \<Rightarrow> npfloat \<Rightarrow> bool" where
  "np_gt a b = np_lt b a"

definition np_ge :: "npfloat \<Rightarrow> npfloat \<Rightarrow> bool" where
  "np_ge a b = (np_lt b a \<or> np_eq a b)"

text \<open>\<open>math.sqrt\<close> raises \<open>ValueError\<close> outside its domain and passes \<open>nan\<close> on.\<close>

fun np_sqrt :: "npfloat \<Rightarrow> error + npfloat" where
  "np_sqrt (Fin r) =
     (if r < 0 then Inl (ValueError ''math domain error'') else Inr (Fin (sqrt r)))"
| "np_sqrt PInf = Inr PInf"
| "np_sqrt NInf = Inl (ValueError ''math domain error'')"
| "np_sqrt NaN = Inr NaN"

definition np_sum :: "npfloat list \<Rightarrow> npfloat" where
  "np_sum xs = foldl np_add (Fin 0) xs"

section \<open>Metrics\<close>

text \<open>
  \<open>np.unique(y, return_counts=True, axis=0)\<close>: the distinct elements (rows) of \<open>y\<close>
  in ascending order, each with the number of times it occurs.
\<close>

definition unique_counts :: "('a::linorder) list \<Rightarrow> nat list" where
  "unique_counts y = map (count_list y) (sort (remdups y))"

text \<open>
  \<open>Metrics.entropy\<close>. The array operations run on finite positive numbers; the last
  step divides a numpy scalar by \<open>math.log(base)\<close>, which raises for \<open>base \<le> 0\<close>.
\<close>

definition entropy :: "('a::linorder) list \<Rightarrow> real \<Rightarrow> error + npfloat" where
  "entropy y base =
     (let count = unique_counts y;
          proba = map (\<lambda>c. real c / real (length y)) count;
          proba = filter (\<lambda>p. 0 < p) proba;
          s = sum_list (map (\<lambda>p. p * ln (1 / p)) proba)
      in if base \<le> 0 then Inl (ValueError ''math domain error'')
         else Inr (np_div (Fin s) (Fin (ln base))))"

text \<open>\<open>np.c_[x, y]\<close> on two vectors: the rows \<open>(x\<^sub>i, y\<^sub>i)\<close>; the lengths must agree.\<close>

definition np_c :: "'a list \<Rightarrow> 'b list \<Rightarrow> error + ('a \<times> 'b) list" where
  "np_c x y =
     (if length x = length y then Inr (zip x y)
      else Inl (ValueError ''all the input array dimensions must match''))"

definition conditional_entropy ::
  "('a::linorder) list \<Rightarrow> ('b::linorder) list \<Rightarrow> real \<Rightarrow> error + npfloat" where
  "conditional_entropy x y base =
     (case np_c x y of Inl e \<Rightarrow> Inl e
      | Inr xy \<Rightarrow>
         (case entropy xy base of Inl e \<Rightarrow> Inl e
          | Inr hxy \<Rightarrow>
             (case entropy x base of Inl e \<Rightarrow> Inl e
              | Inr hx \<Rightarrow> Inr (np_sub hxy hx))))"

definition information_gain ::
  "('a::linorder) list \<Rightarrow> ('b::linorder) list \<Rightarrow> real \<Rightarrow> error + npfloat" where
  "information_gain x y base =
     (case entropy y base of Inl e \<Rightarrow> Inl e
      | Inr hy \<Rightarrow>
         (case conditional_entropy x y base of Inl e \<Rightarrow> Inl e
          | Inr hyx \<Rightarrow> Inr (np_sub hy hyx)))"

definition symmetrical_uncertainty ::
  "('a::linorder) list \<Rightarrow> ('b::linorder) list \<Rightarrow> error + npfloat" where
  "symmetrical_uncertainty x y =
     (case information_gain x y 2 of Inl e \<Rightarrow> Inl e
      | Inr ig \<Rightarrow>
         (case entropy x 2 of Inl e \<Rightarrow> Inl e
          | Inr hx \<Rightarrow>
             (case entropy y 2 of Inl e \<Rightarrow> Inl e
              | Inr hy \<Rightarrow> Inr (np_div (np_mul (Fin 2) ig) (np_add hx hy)))))"

text \<open>
  Two auxiliary notions for the proofs: the empirical probability of a symbol, and
  the sum that \<open>entropy\<close> divides by the logarithm of the base.
\<close>

definition proba_of :: "('a::linorder) list \<Rightarrow> 'a \<Rightarrow> real" where
  "proba_of y v = real (count_list y v) / real (length y)"

definition shannon :: "('a::linorder) list \<Rightarrow> real" where
  "shannon y = (\<Sum>v\<in>set y. proba_of y v * ln (1 / proba_of y v))"


section \<open>The selection engine\<close>

text \<open>
  The engine's attributes. \<open>_result\<close> and \<open>_su_labels\<close> are \<open>None\<close> or an array, the
  pairwise cache is a dictionary keyed by the pair of indices as the caller gave
  them, and \<open>X_\<close>, \<open>y_\<close> do not exist before the first run. The feature matrix is
  held by its columns (\<open>X_[:, col]\<close> is the column \<open>col\<close>, \<open>X_.shape[1]\<close> their number).
\<close>

record mfs =
  result :: "nat list option"
  scores :: "npfloat list"
  su_labels :: "npfloat list option"
  su_features :: "nat \<times> nat \<Rightarrow> npfloat option"
  X_attr :: "int list list option"
  y_attr :: "int list option"

text \<open>
  A method returns a value or raises; either way the engine is left in some state,
  which the outcome carries.
\<close>

type_synonym 'a outcome = "(error + 'a) \<times> mfs"

definition initialize :: "mfs \<Rightarrow> mfs" where
  "initialize st =
     st\<lparr>result := None, scores := [], su_labels := None, su_features := Map.empty\<rparr>"

definition MFS_new :: mfs where
  "MFS_new = initialize
     \<lparr>result = None, scores = [], su_labels = None, su_features = Map.empty,
      X_attr = None, y_attr = None\<rparr>"

text \<open>The loop of \<open>_compute_su_labels\<close> over \<open>range(num_features)\<close>.\<close>

fun su_labels_loop :: "nat list \<Rightarrow> mfs \<Rightarrow> unit outcome" where
  "su_labels_loop [] st = (Inr (), st)"
| "su_labels_loop (col # cols) st =
     (case (X_attr st, y_attr st, su_labels st) of
        (Some X, Some y, Some sl) \<Rightarrow>
          (if col < length X \<and> col < length sl then
             (case symmetrical_uncertainty (X ! col) y of
                Inl e \<Rightarrow> (Inl e, st)
              | Inr v \<Rightarrow> su_labels_loop cols (st\<lparr>su_labels := Some (sl[col := v])\<rparr>))
           else (Inl IndexError, st))
      | _ \<Rightarrow> (Inl AttributeError, st))"

definition compute_su_labels :: "mfs \<Rightarrow> npfloat list outcome" where
  "compute_su_labels st =
     (case su_labels st of
        Some sl \<Rightarrow> (Inr sl, st)
      | None \<Rightarrow>
         (case X_attr st of
            None \<Rightarrow> (Inl AttributeError, st)
          | Some X \<Rightarrow>
             (let num_features = length X;
                  st1 = st\<lparr>su_labels := Some (replicate num_features (Fin 0))\<rparr>
              in case su_labels_loop [0..<num_features] st1 of
                   (Inl e, st2) \<Rightarrow> (Inl e, st2)
                 | (Inr _, st2) \<Rightarrow>
                    (case su_labels st2 of
                       None \<Rightarrow> (Inl TypeError, st2)
                     | Some sl \<Rightarrow> (Inr sl, st2)))))"

definition compute_su_features :: "mfs \<Rightarrow> nat \<Rightarrow> nat \<Rightarrow> npfloat outcome" where
  "compute_su_features st feature_a feature_b =
     (case su_features st (feature_a, feature_b) of
        Some v \<Rightarrow> (Inr v, st)
      | None \<Rightarrow>
         (case X_attr st of
            None \<Rightarrow> (Inl AttributeError, st)
          | Some X \<Rightarrow>
             (if feature_a < length X \<and> feature_b < length X then
                (case symmetrical_uncertainty (X ! feature_a) (X ! feature_b) of
                   Inl e \<Rightarrow> (Inl e, st)
                 | Inr v \<Rightarrow>
                    (Inr v,
                     st\<lparr>su_features := (su_features st)((feature_a, feature_b) \<mapsto> v)\<rparr>))
              else (Inl IndexError, st))))"

text \<open>\<open>itertools.combinations(features, 2)\<close>: the pairs of positions \<open>i < j\<close>, in order.\<close>

fun combinations2 :: "'a list \<Rightarrow> ('a \<times> 'a) list" where
  "combinations2 [] = []"
| "combinations2 (x # xs) = map (Pair x) xs @ combinations2 xs"

text \<open>The loop of \<open>_compute_merit\<close> that accumulates \<open>rff\<close>.\<close>

fun rff_loop :: "(nat \<times> nat) list \<Rightarrow> npfloat \<Rightarrow> mfs \<Rightarrow> npfloat outcome" where
  "rff_loop [] rff st = (Inr rff, st)"
| "rff_loop (pair # pairs) rff st =
     (case compute_su_features st (fst pair) (snd pair) of
        (Inl e, st1) \<Rightarrow> (Inl e, st1)
      | (Inr v, st1) \<Rightarrow> rff_loop pairs (np_add rff v) st1)"

definition compute_merit :: "mfs \<Rightarrow> nat list \<Rightarrow> npfloat outcome" where
  "compute_merit st features =
     (case su_labels st of
        None \<Rightarrow> (Inl TypeError, st)
      | Some sl \<Rightarrow>
         (if \<exists>f \<in> set features. length sl \<le> f then (Inl IndexError, st)
          else
            (let rcf = np_sum (map (\<lambda>f. sl ! f) features);
                 k = length features
             in case rff_loop (combinations2 features) (Fin 0) st of
                  (Inl e, st1) \<Rightarrow> (Inl e, st1)
                | (Inr rff, st1) \<Rightarrow>
                   (case np_sqrt (np_add (Fin (real k))
                                   (np_mul (Fin (real (k ^ 2 - k))) rff)) of
                      Inl e \<Rightarrow> (Inl e, st1)
                    | Inr d \<Rightarrow> (Inr (np_div rcf d), st1)))))"

text \<open>
  \<open>ndarray.argsort\<close>: the indices in ascending order of their keys, \<open>nan\<close> last.
  numpy does not promise an order among equal keys; the model takes them in index
  order, as numpy's insertion sort does on short arrays. The general theorems below
  use only that the result is a permutation of the indices.
\<close>

fun sort_rank :: "npfloat \<Rightarrow> nat \<times> real" where
  "sort_rank NInf = (0, 0)"
| "sort_rank (Fin r) = (1, r)"
| "sort_rank PInf = (2, 0)"
| "sort_rank NaN = (3, 0)"

definition argsort :: "npfloat list \<Rightarrow> nat list" where
  "argsort ks = sort_key (\<lambda>i. sort_rank (ks ! i)) [0..<length ks]"

text \<open>\<open>sys.float_info.min\<close>, the smallest positive normal double.\<close>

definition float_info_min :: real where
  "float_info_min = 1 / 2 ^ 1022"

text \<open>
  The inner \<open>for\<close> loop of \<open>cfs\<close>: every feature still in the pool is tried at the end
  of the candidate list, and the first one with the strictly greatest merit wins.
\<close>

fun expand_loop ::
  "(nat \<times> nat) list \<Rightarrow> nat list \<Rightarrow> npfloat \<Rightarrow> nat option \<Rightarrow> mfs
     \<Rightarrow> (npfloat \<times> nat option) outcome" where
  "expand_loop [] candidates merit id_selected st = (Inr (merit, id_selected), st)"
| "expand_loop ((idx, feature) # rest) candidates merit id_selected st =
     (case compute_merit st (candidates @ [feature]) of
        (Inl e, st1) \<Rightarrow> (Inl e, st1)
      | (Inr merit_new, st1) \<Rightarrow>
         (if np_gt merit_new merit
          then expand_loop rest candidates merit_new (Some idx) st1
          else expand_loop rest candidates merit id_selected st1))"

text \<open>
  The stagnation scan over \<open>self._scores[-5:]\<close>; the result is whether the \<open>for\<close> loop
  ran to its \<open>else\<close> branch (no \<open>break\<close>).
\<close>

fun stagnation_scan :: "npfloat \<Rightarrow> npfloat list \<Rightarrow> bool" where
  "stagnation_scan item_ant [] = True"
| "stagnation_scan item_ant (item # items) =
     (let item_ant1 = (if np_eq item_ant (Fin (- 1)) then item else item_ant)
      in if np_gt item item_ant1 then False else stagnation_scan item items)"

definition last5 :: "'a list \<Rightarrow> 'a list" where
  "last5 xs = drop (length xs - 5) xs"

definition del_at :: "'a list \<Rightarrow> nat \<Rightarrow> 'a list" where
  "del_at xs i = take i xs @ drop (Suc i) xs"

text \<open>The \<open>while\<close> loop of \<open>cfs\<close>.\<close>

function cfs_loop :: "nat list \<Rightarrow> nat list \<Rightarrow> mfs \<Rightarrow> nat list outcome" where
  "cfs_loop feature_order candidates st =
     (case expand_loop (zip [0..<length feature_order] feature_order) candidates
             (Fin float_info_min) None st of
        (Inl e, st1) \<Rightarrow> (Inl e, st1)
      | (Inr (merit, None), st1) \<Rightarrow> (Inl TypeError, st1)
      | (Inr (merit, Some i), st1) \<Rightarrow>
         (if length feature_order \<le> i then (Inl IndexError, st1)
          else
            (let candidates1 = candidates @ [feature_order ! i];
                 st2 = st1\<lparr>scores := scores st1 @ [merit]\<rparr>;
                 feature_order1 = del_at feature_order i;
                 continue1 = (length feature_order1 \<noteq> 0);
                 continue2 =
                   (if 5 \<le> length (scores st2)
                    then (if stagnation_scan (Fin (- 1)) (last5 (scores st2))
                          then False else continue1)
                    else continue1)
             in if continue2 then cfs_loop feature_order1 candidates1 st2
                else (Inr candidates1, st2))))"
  by pat_completeness auto
termination
  by (relation "measure (\<lambda>(fo, c, st). length fo)") (auto simp: del_at_def)

definition cfs :: "mfs \<Rightarrow> int list list \<Rightarrow> int list \<Rightarrow> unit outcome" where
  "cfs st X y =
     (let st1 = (initialize st)\<lparr>X_attr := Some X, y_attr := Some y\<rparr>
      in case compute_su_labels st1 of
           (Inl e, st2) \<Rightarrow> (Inl e, st2)
         | (Inr s_list, st2) \<Rightarrow>
            (case argsort (map np_neg s_list) of
               [] \<Rightarrow> (Inl IndexError, st2)
             | first_candidate # feature_order \<Rightarrow>
                (let st3 = st2\<lparr>scores := scores st2 @ [s_list ! first_candidate]\<rparr>
                 in case cfs_loop feature_order [first_candidate] st3 of
                      (Inl e, st4) \<Rightarrow> (Inl e, st4)
                    | (Inr candidates, st4) \<Rightarrow>
                       (Inr (), st4\<lparr>result := Some candidates\<rparr>))))"

text \<open>
  The inner loop of \<open>fcbs\<close>. \<open>s_list\<close> is the array object that \<open>self._su_labels\<close>
  refers to (\<open>_compute_su_labels\<close> returns it without copying), so the assignment
  \<open>s_list[index_q] = 0.0\<close> writes to both.
\<close>

fun dominance_loop :: "nat \<Rightarrow> nat list \<Rightarrow> npfloat list \<Rightarrow> mfs \<Rightarrow> npfloat list outcome" where
  "dominance_loop index_p [] s_list st = (Inr s_list, st)"
| "dominance_loop index_p (index_q # qs) s_list st =
     (case compute_su_features st index_p index_q of
        (Inl e, st1) \<Rightarrow> (Inl e, st1)
      | (Inr su_pq, st1) \<Rightarrow>
         (if length s_list \<le> index_q then (Inl IndexError, st1)
          else if np_ge su_pq (s_list ! index_q)
          then (let s_list1 = s_list[index_q := Fin 0]
                in dominance_loop index_p qs s_list1 (st1\<lparr>su_labels := Some s_list1\<rparr>))
          else dominance_loop index_p qs s_list st1))"

text \<open>The outer loop of \<open>fcbs\<close> over \<open>feature_order\<close>, with \<open>feature_dup\<close> beside it.\<close>

fun fcbs_loop ::
  "nat list \<Rightarrow> nat list \<Rightarrow> npfloat \<Rightarrow> npfloat list \<Rightarrow> mfs \<Rightarrow> unit outcome" where
  "fcbs_loop [] feature_dup threshold s_list st = (Inr (), st)"
| "fcbs_loop (index_p # rest) feature_dup threshold s_list st =
     (case feature_dup of
        [] \<Rightarrow> (Inl IndexError, st)
      | _ # feature_dup1 \<Rightarrow>
         (if length s_list \<le> index_p then (Inl IndexError, st)
          else if np_eq (s_list ! index_p) (Fin 0)
          then fcbs_loop rest feature_dup1 threshold s_list st
          else if np_lt (s_list ! index_p) threshold then (Inr (), st)
          else
            (case dominance_loop index_p feature_dup1 s_list st of
               (Inl e, st1) \<Rightarrow> (Inl e, st1)
             | (Inr s_list1, st1) \<Rightarrow>
                (case result st1 of
                   None \<Rightarrow> (Inl AttributeError, st1)
                 | Some res \<Rightarrow>
                    fcbs_loop rest feature_dup1 threshold s_list1
                      (st1\<lparr>result := Some (res @ [index_p]),
                          scores := scores st1 @ [s_list1 ! index_p]\<rparr>)))))"

text \<open>The error that \<open>fcbs\<close> raises for a threshold that is too small.\<close>

definition threshold_error :: error where
  "threshold_error = ValueError ''Threshold cannot be less than 1e-4''"

definition fcbs :: "mfs \<Rightarrow> int list list \<Rightarrow> int list \<Rightarrow> npfloat \<Rightarrow> unit outcome" where
  "fcbs st X y threshold =
     (if np_lt threshold (Fin (1 / 10 ^ 4))
      then (Inl (ValueError ''Threshold cannot be less than 1e-4''), st)
      else
        (let st1 = (initialize st)\<lparr>X_attr := Some X, y_attr := Some y\<rparr>
         in case compute_su_labels st1 of
              (Inl e, st2) \<Rightarrow> (Inl e, st2)
            | (Inr s_list, st2) \<Rightarrow>
               (let feature_order = argsort (map np_neg s_list);
                    feature_dup = feature_order;
                    st3 = st2\<lparr>result := Some []\<rparr>
                in fcbs_loop feature_order feature_dup threshold s_list st3)))"

definition get_results :: "mfs \<Rightarrow> nat list option" where
  "get_results st = result st"

definition get_scores :: "mfs \<Rightarrow> npfloat list" where
  "get_scores st = scores st"

text \<open>
  Auxiliary notions for the statements and proofs about the engine: a score that is
  \<open>nan\<close> or a number that is not negative; a pairwise cache each of whose entries is
  the symmetrical uncertainty of its two columns.
\<close>

fun nonneg_or_nan :: "npfloat \<Rightarrow> bool" where
  "nonneg_or_nan (Fin r) = (0 \<le> r)"
| "nonneg_or_nan NaN = True"
| "nonneg_or_nan PInf = False"
| "nonneg_or_nan NInf = False"

definition cache_consistent :: "int list list \<Rightarrow> (nat \<times> nat \<Rightarrow> npfloat option) \<Rightarrow> bool" where
  "cache_consistent X m =
     (\<forall>a b v. m (a, b) = Some v \<longrightarrow> symmetrical_uncertainty (X ! a) (X ! b) = Inr v)"

text \<open>
  The stopping rule in the words of the specification: a sequence of scores is
  non-increasing when no two consecutive entries show a strict increase.
\<close>

fun non_increasing :: "npfloat list \<Rightarrow> bool" where
  "non_increasing (a # b # rest) = (\<not> np_gt b a \<and> non_increasing (b # rest))"
| "non_increasing [a] = True"
| "non_increasing [] = True"

section \<open>Properties of the metrics\<close>

lemma proba_of_pos: "v \<in> set y \<Longrightarrow> 0 < proba_of y v"
  unfolding proba_of_def
  using count_list_0_iff[of y v] by (cases y) (auto intro!: divide_pos_pos)

lemma proba_of_le1: "proba_of y v \<le> 1"
  unfolding proba_of_def using count_le_length[of y v]
  by (cases "length y = 0") (auto simp: divide_le_eq)

lemma entropy_shannon:
  "entropy y base = (if base \<le> 0 then Inl (ValueError ''math domain error'')
      else Inr (np_div (Fin (shannon y)) (Fin (ln base))))"
proof -
  let ?us = "sort (remdups y)"
  have m: "map (\<lambda>c. real c / real (length y)) (unique_counts y) = map (proba_of y) ?us"
    by (simp add: unique_counts_def proba_of_def comp_def)
  have f: "filter (\<lambda>p. 0 < p) (map (proba_of y) ?us) = map (proba_of y) ?us"
    by (rule filter_True) (auto simp: proba_of_pos)
  have "sum_list (map (\<lambda>p. p * ln (1 / p)) (map (proba_of y) ?us))
        = sum_list (map (\<lambda>v. proba_of y v * ln (1 / proba_of y v)) ?us)"
    by (simp add: comp_def)
  also have "\<dots> = shannon y"
    unfolding shannon_def using sum_list_distinct_conv_sum_set[of ?us] by simp
  finally show ?thesis
    unfolding entropy_def Let_def m f by simp
qed

lemma shannon_nonneg: "0 \<le> shannon y"
  unfolding shannon_def
proof (rule sum_nonneg)
  fix v assume "v \<in> set y"
  then have p: "0 < proba_of y v" by (rule proba_of_pos)
  have "1 \<le> 1 / proba_of y v" using p proba_of_le1[of y v] by (simp add: le_divide_eq)
  then have "0 \<le> ln (1 / proba_of y v)" by simp
  with p show "0 \<le> proba_of y v * ln (1 / proba_of y v)" by simp
qed

lemma shannon_mset: "mset y = mset y' \<Longrightarrow> shannon y = shannon y'"
proof -
  assume a: "mset y = mset y'"
  have s: "set y = set y'" using a by (metis set_mset_mset)
  have l: "length y = length y'" using a by (metis size_mset)
  have c: "\<And>v. count_list y v = count_list y' v" using a by (metis count_mset)
  show ?thesis unfolding shannon_def proba_of_def s l c ..
qed

lemma ln4_real: "ln (4::real) = 2 * ln 2"
proof -
  have "(4::real) = 2 ^ 2" by simp
  then have "ln (4::real) = ln (2 ^ 2)" by (rule arg_cong)
  also have "\<dots> = 2 * ln 2" by (subst ln_realpow) simp_all
  finally show ?thesis .
qed

lemma count_list_map_sum:
  "count_list (map g zs) a = (\<Sum>p \<in> {p \<in> set zs. g p = a}. count_list zs p)"
proof -
  have "count_list (map g zs) a = count (image_mset g (mset zs)) a"
    by (simp flip: count_mset)
  also have "\<dots> = (\<Sum>p \<in> g -` {a} \<inter> set_mset (mset zs). count (mset zs) p)"
    by (rule count_image_mset)
  also have "g -` {a} \<inter> set_mset (mset zs) = {p \<in> set zs. g p = a}" by auto
  finally show ?thesis by (simp add: count_mset)
qed

lemma proba_sum_one:
  assumes "y \<noteq> []"
  shows "(\<Sum>v \<in> set y. proba_of y v) = 1"
proof -
  have "(\<Sum>v \<in> set y. real (count_list y v)) = real (length y)"
    using sum_count_set[of y "set y"] by (simp flip: of_nat_sum)
  then show ?thesis
    using assms unfolding proba_of_def by (simp flip: sum_divide_distrib)
qed

lemma shannon_via_joint:
  assumes "map g z = x"
  shows "shannon x = (\<Sum>p \<in> set z. proba_of z p * ln (1 / proba_of x (g p)))"
proof -
  have len: "length x = length z" using assms by auto
  have sx: "set x = g ` set z" using assms by auto
  have inner: "(\<Sum>p \<in> {p \<in> set z. g p = a}. proba_of z p * ln (1 / proba_of x (g p)))
               = proba_of x a * ln (1 / proba_of x a)" for a
  proof -
    have "(\<Sum>p \<in> {p \<in> set z. g p = a}. proba_of z p * ln (1 / proba_of x (g p)))
          = (\<Sum>p \<in> {p \<in> set z. g p = a}. proba_of z p * ln (1 / proba_of x a))"
      by (rule sum.cong) auto
    also have "\<dots> = (\<Sum>p \<in> {p \<in> set z. g p = a}. proba_of z p) * ln (1 / proba_of x a)"
      by (simp add: sum_distrib_right)
    also have "(\<Sum>p \<in> {p \<in> set z. g p = a}. proba_of z p) = proba_of x a"
      unfolding proba_of_def len
      using count_list_map_sum[of g z a] assms
      by (simp flip: sum_divide_distrib of_nat_sum)
    finally show ?thesis .
  qed
  have "(\<Sum>p \<in> set z. proba_of z p * ln (1 / proba_of x (g p)))
        = (\<Sum>a \<in> set x. \<Sum>p \<in> {p \<in> set z. g p = a}. proba_of z p * ln (1 / proba_of x (g p)))"
    by (rule sum.group[symmetric]) (auto simp: sx)
  also have "\<dots> = (\<Sum>a \<in> set x. proba_of x a * ln (1 / proba_of x a))"
    by (simp only: inner)
  finally show ?thesis by (simp add: shannon_def)
qed

lemma shannon_subadditive:
  assumes "length x = length y"
  shows "shannon (zip x y) \<le> shannon x + shannon y"
proof (cases "x = []")
  case True
  with assms show ?thesis by (simp add: shannon_def)
next
  case False
  define z where "z = zip x y"
  have zx: "map fst z = x" and zy: "map snd z = y" using assms by (simp_all add: z_def)
  have zne: "z \<noteq> []" using False zx by auto
  have yne: "y \<noteq> []" using False assms by auto
  let ?P = "proba_of z" and ?Px = "\<lambda>p. proba_of x (fst p)" and ?Py = "\<lambda>p. proba_of y (snd p)"
  have pos: "0 < ?P p" "0 < ?Px p" "0 < ?Py p" if "p \<in> set z" for p
  proof -
    show "0 < ?P p" using that by (rule proba_of_pos)
    have "fst p \<in> set x" using that zx by force
    then show "0 < ?Px p" by (rule proba_of_pos)
    have "snd p \<in> set y" using that zy by force
    then show "0 < ?Py p" by (rule proba_of_pos)
  qed
  have tm: "?P p * ln (1 / ?P p) - ?P p * ln (1 / ?Px p) - ?P p * ln (1 / ?Py p)
              \<le> ?Px p * ?Py p - ?P p" if "p \<in> set z" for p
  proof -
    note q = pos[OF that]
    have "ln (1 / ?P p) - ln (1 / ?Px p) - ln (1 / ?Py p) = ln (?Px p * ?Py p / ?P p)"
      using q by (simp add: ln_div ln_mult)
    also have "\<dots> \<le> ?Px p * ?Py p / ?P p - 1"
      using q by (intro ln_le_minus_one) simp
    finally have "?P p * (ln (1 / ?P p) - ln (1 / ?Px p) - ln (1 / ?Py p))
                  \<le> ?P p * (?Px p * ?Py p / ?P p - 1)"
      using q(1) by (simp add: mult_left_mono)
    also have "\<dots> = ?Px p * ?Py p - ?P p" using q(1) by (simp add: field_simps)
    finally show ?thesis by (simp add: algebra_simps)
  qed
  have prod_le: "(\<Sum>p \<in> set z. ?Px p * ?Py p) \<le> 1"
  proof -
    have "(\<Sum>p \<in> set z. ?Px p * ?Py p) \<le> (\<Sum>p \<in> set x \<times> set y. ?Px p * ?Py p)"
    proof (rule sum_mono2)
      show "finite (set x \<times> set y)" by simp
      show "set z \<subseteq> set x \<times> set y" unfolding z_def by (auto dest: set_zip_leftD set_zip_rightD)
      fix b assume "b \<in> set x \<times> set y - set z"
      show "0 \<le> ?Px b * ?Py b" by (simp add: proba_of_def)
    qed
    also have "\<dots> = (\<Sum>a \<in> set x. proba_of x a) * (\<Sum>b \<in> set y. proba_of y b)"
      by (simp add: sum_product sum.cartesian_product case_prod_beta)
    also have "\<dots> = 1" using proba_sum_one[OF False] proba_sum_one[OF yne] by simp
    finally show ?thesis .
  qed
  have "shannon z - shannon x - shannon y
        = (\<Sum>p \<in> set z. ?P p * ln (1 / ?P p) - ?P p * ln (1 / ?Px p) - ?P p * ln (1 / ?Py p))"
    unfolding shannon_via_joint[OF zx] shannon_via_joint[OF zy]
    by (simp add: shannon_def sum_subtractf)
  also have "\<dots> \<le> (\<Sum>p \<in> set z. ?Px p * ?Py p - ?P p)"
    by (rule sum_mono) (rule tm)
  also have "\<dots> = (\<Sum>p \<in> set z. ?Px p * ?Py p) - 1"
    using proba_sum_one[OF zne] by (simp add: sum_subtractf)
  also have "\<dots> \<le> 0" using prod_le by simp
  finally show ?thesis by (simp add: z_def)
qed

lemma su_closed_form:
  "symmetrical_uncertainty x y =
     (if length x = length y
      then Inr (np_div (Fin (2 * ((shannon y - (shannon (zip x y) - shannon x)) / ln 2)))
                       (Fin ((shannon x + shannon y) / ln 2)))
      else Inl (ValueError ''all the input array dimensions must match''))"
  by (simp add: symmetrical_uncertainty_def information_gain_def conditional_entropy_def
      np_c_def entropy_shannon np_sub_def diff_divide_distrib add_divide_distrib)

lemma su_range:
  assumes "symmetrical_uncertainty x y = Inr v"
  shows "v = NaN \<or> (\<exists>r. v = Fin r \<and> 0 \<le> r)"
proof -
  from assms have len: "length x = length y"
    by (auto simp: su_closed_form split: if_splits)
  let ?num = "2 * ((shannon y - (shannon (zip x y) - shannon x)) / ln 2)"
  let ?den = "(shannon x + shannon y) / ln 2"
  have l2: "0 < ln (2::real)" by simp
  have n0: "0 \<le> ?num" using shannon_subadditive[OF len] l2 by simp
  have d0: "0 \<le> ?den" using shannon_nonneg[of x] shannon_nonneg[of y] l2 by simp
  have v: "v = np_div (Fin ?num) (Fin ?den)" using assms len by (simp add: su_closed_form)
  show ?thesis
  proof (cases "?den = 0")
    case True
    then have "shannon x + shannon y = 0" using l2 by simp
    then have "shannon x = 0" "shannon y = 0"
      using shannon_nonneg[of x] shannon_nonneg[of y] by linarith+
    then have "?num \<le> 0" using shannon_nonneg[of "zip x y"] l2
      by (simp add: divide_nonpos_pos)
    with n0 have "?num = 0" by linarith
    with True v have "v = NaN" by (metis np_div.simps(1))
    then show ?thesis ..
  next
    case False
    with v have "v = Fin (?num / ?den)" by simp
    moreover have "0 \<le> ?num / ?den" using n0 d0 by (rule divide_nonneg_nonneg)
    ultimately show ?thesis by blast
  qed
qed

lemma su_total: "length x = length y \<Longrightarrow> \<exists>v. symmetrical_uncertainty x y = Inr v"
  by (simp add: su_closed_form)

lemma entropy_0011: "entropy [0, 0, 1, 1 :: int] 2 = Inr (Fin 1)"
  by (simp add: entropy_def unique_counts_def)

lemma entropy_0101: "entropy [0, 1, 0, 1 :: int] 2 = Inr (Fin 1)"
  by (simp add: entropy_def unique_counts_def)

lemma entropy_pairs_same:
  "entropy [(0, 0), (0, 0), (1, 1), (1, 1) :: int \<times> int] 2 = Inr (Fin 1)"
  by (simp add: entropy_def unique_counts_def)

lemma entropy_pairs_indep:
  "entropy [(0, 0), (0, 1), (1, 0), (1, 1) :: int \<times> int] 2 = Inr (Fin 2)"
  by (simp add: entropy_def unique_counts_def ln4_real)

text \<open>
  Claim C7. For every non-empty vector \<open>y\<close> and every logarithm base greater than 1,
  \<open>entropy y base\<close> returns a finite number that is at least 0, and every
  rearrangement \<open>y'\<close> of the elements of \<open>y\<close> has the same entropy.
\<close>

theorem entropy_nonneg_perm_invariant:
  assumes "y \<noteq> []" and "1 < base"
  shows "(\<exists>h. entropy y base = Inr (Fin h) \<and> 0 \<le> h) \<and>
         (\<forall>y'. mset y' = mset y \<longrightarrow> entropy y' base = entropy y base)"
proof -
  have lb: "0 < ln base" using assms(2) by simp
  have "entropy y base = Inr (Fin (shannon y / ln base))"
    using assms(2) lb by (simp add: entropy_shannon)
  moreover have "0 \<le> shannon y / ln base" using shannon_nonneg[of y] lb by simp
  moreover have "\<forall>y'. mset y' = mset y \<longrightarrow> entropy y' base = entropy y base"
    by (auto simp: entropy_shannon dest: shannon_mset)
  ultimately show ?thesis by blast
qed

theorem entropy_nonneg_perm_invariant_witness:
  "[0, 0, 1, 1 :: int] \<noteq> [] \<and> (1::real) < 2 \<and>
   entropy [0, 0, 1, 1 :: int] 2 = Inr (Fin 1) \<and> (0::real) \<le> 1 \<and>
   mset [1, 0, 1, 0 :: int] = mset [0, 0, 1, 1] \<and>
   entropy [1, 0, 1, 0 :: int] 2 = entropy [0, 0, 1, 1 :: int] 2"
  using entropy_nonneg_perm_invariant [of "[0, 0, 1, 1 :: int]" 2]
  by (simp add: entropy_def unique_counts_def)

text \<open>
  Claim C8 says that \<open>entropy\<close> of an empty vector fails with an invalid-argument
  error. The function has no check of its input: on the empty vector there are no
  symbols, the sum over them is 0, and with base 2 the result is the number 0.
\<close>

theorem entropy_empty_counterexample:
  "entropy ([] :: int list) 2 = Inr (Fin 0) \<and> \<not> isl (entropy ([] :: int list) 2)"
  by (simp add: entropy_def unique_counts_def)

text \<open>
  Claim C8, amended. \<open>entropy\<close> of an empty vector raises nothing of its own: it
  returns 0 for every base that is positive and not 1, \<open>nan\<close> (0 divided by 0) for
  base 1, and the only error is the one of the logarithm for a base that is not
  positive.
\<close>

theorem entropy_empty_value:
  "entropy ([] :: ('a::linorder) list) base =
     (if base \<le> 0 then Inl (ValueError ''math domain error'')
      else if base = 1 then Inr NaN else Inr (Fin 0))"
  by (simp add: entropy_def unique_counts_def)

text \<open>
  Claim C6. For vectors \<open>x\<close>, \<open>y\<close> of the same length and a positive base, the three
  entropies exist, \<open>conditional_entropy x y base\<close> is the entropy of the rows
  \<open>(x\<^sub>i, y\<^sub>i)\<close> minus the entropy of \<open>x\<close>, and \<open>information_gain x y base\<close> is the
  entropy of \<open>y\<close> minus that conditional entropy. For a base other than 1 all of
  them are finite, the entropies being the sums of \<open>p log (1/p)\<close> over the symbols
  divided by the logarithm of the base.
\<close>

theorem information_gain_identity:
  assumes "length x = length y" and "0 < base"
  shows "\<exists>hy hxy hx.
           entropy y base = Inr hy \<and> entropy (zip x y) base = Inr hxy \<and>
           entropy x base = Inr hx \<and>
           conditional_entropy x y base = Inr (np_sub hxy hx) \<and>
           information_gain x y base = Inr (np_sub hy (np_sub hxy hx)) \<and>
           (base \<noteq> 1 \<longrightarrow>
              hy = Fin (shannon y / ln base) \<and> hxy = Fin (shannon (zip x y) / ln base) \<and>
              hx = Fin (shannon x / ln base) \<and>
              information_gain x y base =
                Inr (Fin (shannon y / ln base -
                          (shannon (zip x y) / ln base - shannon x / ln base))))"
  using assms
  by (simp add: information_gain_def conditional_entropy_def np_c_def entropy_shannon
      np_sub_def)

theorem information_gain_identity_witness:
  "length [0, 0, 1, 1 :: int] = length [0, 1, 0, 1 :: int] \<and> (0::real) < 2 \<and>
   conditional_entropy [0, 0, 1, 1 :: int] [0, 1, 0, 1 :: int] 2 = Inr (Fin 1) \<and>
   information_gain [0, 0, 1, 1 :: int] [0, 1, 0, 1 :: int] 2 = Inr (Fin 0)"
  using information_gain_identity [of "[0, 0, 1, 1 :: int]" "[0, 1, 0, 1 :: int]" 2]
  by (simp add: entropy_0011 entropy_0101 entropy_pairs_indep np_sub_def
        information_gain_def conditional_entropy_def np_c_def)

section \<open>Properties of the selection engine\<close>

lemma su_not_thr: "symmetrical_uncertainty x y = Inl e \<Longrightarrow> e \<noteq> threshold_error"
  by (auto simp: symmetrical_uncertainty_def information_gain_def conditional_entropy_def
      np_c_def entropy_shannon threshold_error_def split: sum.splits if_splits)

lemma su_labels_loop_not_thr:
  "su_labels_loop cols st = (Inl e, st') \<Longrightarrow> e \<noteq> threshold_error"
proof (induction cols arbitrary: st)
  case Nil
  then show ?case by simp
next
  case (Cons col cols)
  from Cons.prems Cons.IH show ?case
    by (auto simp: threshold_error_def split: option.splits sum.splits if_splits
        dest: su_not_thr)
qed

lemma compute_su_labels_not_thr:
  "compute_su_labels st = (Inl e, st') \<Longrightarrow> e \<noteq> threshold_error"
  unfolding compute_su_labels_def Let_def
  by (auto simp: threshold_error_def split: option.splits sum.splits prod.splits
      dest: su_labels_loop_not_thr)

lemma compute_su_features_not_thr:
  "compute_su_features st a b = (Inl e, st') \<Longrightarrow> e \<noteq> threshold_error"
  by (auto simp: compute_su_features_def threshold_error_def
      split: option.splits sum.splits if_splits dest: su_not_thr)

lemma dominance_loop_not_thr:
  "dominance_loop p qs sl st = (Inl e, st') \<Longrightarrow> e \<noteq> threshold_error"
proof (induction qs arbitrary: sl st)
  case Nil
  then show ?case by simp
next
  case (Cons q qs)
  from Cons.prems Cons.IH show ?case
    by (auto simp: Let_def threshold_error_def split: sum.splits prod.splits if_splits
        dest: compute_su_features_not_thr)
qed

lemma fcbs_loop_not_thr:
  "fcbs_loop fo dup t sl st = (Inl e, st') \<Longrightarrow> e \<noteq> threshold_error"
proof (induction fo arbitrary: dup sl st)
  case Nil
  then show ?case by simp
next
  case (Cons p rest)
  from Cons.prems Cons.IH show ?case
    by (auto simp: threshold_error_def
        split: list.splits sum.splits option.splits prod.splits if_splits
        dest: dominance_loop_not_thr)
qed


lemma su_labels_loop_result:
  assumes "su_labels_loop cols st = (Inr u, st')"
    and "X_attr st = Some X" and "y_attr st = Some y" and "su_labels st = Some sl"
    and "distinct cols"
  shows "\<exists>sl'. st' = st\<lparr>su_labels := Some sl'\<rparr> \<and> length sl' = length sl \<and>
           (\<forall>c \<in> set cols. symmetrical_uncertainty (X ! c) y = Inr (sl' ! c)) \<and>
           (\<forall>i. i \<notin> set cols \<longrightarrow> sl' ! i = sl ! i)"
  using assms
proof (induction cols arbitrary: st sl)
  case Nil
  then show ?case by (intro exI[of _ sl]) simp
next
  case (Cons col cols)
  from Cons.prems(1-4) obtain v where
    v: "symmetrical_uncertainty (X ! col) y = Inr v" and
    r: "col < length X" "col < length sl" and
    l: "su_labels_loop cols (st\<lparr>su_labels := Some (sl[col := v])\<rparr>) = (Inr u, st')"
    by (auto split: sum.splits if_splits)
  let ?st1 = "st\<lparr>su_labels := Some (sl[col := v])\<rparr>"
  from Cons.IH[OF l, of "sl[col := v]"] Cons.prems(2,3,5)
  obtain sl' where
    s: "st' = ?st1\<lparr>su_labels := Some sl'\<rparr>" "length sl' = length (sl[col := v])"
       "\<forall>c \<in> set cols. symmetrical_uncertainty (X ! c) y = Inr (sl' ! c)"
       "\<forall>i. i \<notin> set cols \<longrightarrow> sl' ! i = (sl[col := v]) ! i"
    by auto
  have "col \<notin> set cols" using Cons.prems(5) by simp
  then have "sl' ! col = v" using s(4) r(2) by simp
  with s v show ?case
    by (intro exI[of _ sl']) auto
qed

lemma compute_su_labels_result:
  assumes "compute_su_labels st = (Inr sl, st')"
    and "X_attr st = Some X" and "y_attr st = Some y" and "su_labels st = None"
  shows "st' = st\<lparr>su_labels := Some sl\<rparr> \<and> length sl = length X \<and>
         (\<forall>i < length X. symmetrical_uncertainty (X ! i) y = Inr (sl ! i))"
proof -
  let ?st1 = "st\<lparr>su_labels := Some (replicate (length X) (Fin 0))\<rparr>"
  from assms obtain u st2 where
    l: "su_labels_loop [0..<length X] ?st1 = (Inr u, st2)" and
    e: "st' = st2" "su_labels st2 = Some sl"
    unfolding compute_su_labels_def Let_def
    by (auto split: option.splits sum.splits prod.splits)
  from su_labels_loop_result[OF l, of X y "replicate (length X) (Fin 0)"] assms(2,3)
  obtain sl' where
    s: "st2 = ?st1\<lparr>su_labels := Some sl'\<rparr>" "length sl' = length X"
       "\<forall>c \<in> set [0..<length X]. symmetrical_uncertainty (X ! c) y = Inr (sl' ! c)"
    by auto
  from s(1) e(2) have "sl' = sl" by simp
  with s e show ?thesis by simp
qed

lemma compute_su_features_frame:
  assumes "compute_su_features st a b = (r, st')"
  shows "\<exists>m. st' = st\<lparr>su_features := m\<rparr>"
  using assms
  by (auto simp: compute_su_features_def split: option.splits sum.splits if_splits
      intro: exI[of _ "su_features st"])

lemma dominance_loop_result:
  assumes "dominance_loop p qs sl st = (Inr sl', st')" and "su_labels st = Some sl"
  shows "su_labels st' = Some sl' \<and> result st' = result st \<and> scores st' = scores st \<and>
         X_attr st' = X_attr st \<and> y_attr st' = y_attr st \<and>
         length sl' = length sl \<and>
         (\<forall>i. i \<notin> set qs \<longrightarrow> sl' ! i = sl ! i) \<and>
         (\<forall>i. sl' ! i = sl ! i \<or> (i < length sl \<and> sl' ! i = Fin 0))"
  using assms
proof (induction qs arbitrary: sl st)
  case Nil
  then show ?case by simp
next
  case (Cons q qs)
  from Cons.prems(1) obtain v st1 where
    c: "compute_su_features st p q = (Inr v, st1)" and q: "q < length sl"
    by (auto split: sum.splits prod.splits if_splits)
  from compute_su_features_frame[OF c] obtain m where st1: "st1 = st\<lparr>su_features := m\<rparr>" ..
  show ?case
  proof (cases "np_ge v (sl ! q)")
    case True
    let ?sl1 = "sl[q := Fin 0]"
    let ?st2 = "st1\<lparr>su_labels := Some ?sl1\<rparr>"
    from Cons.prems(1) c q True have l: "dominance_loop p qs ?sl1 ?st2 = (Inr sl', st')"
      by (simp add: Let_def)
    have "su_labels ?st2 = Some ?sl1" by simp
    from Cons.IH[OF l this] have
      ih: "su_labels st' = Some sl'" "result st' = result ?st2" "scores st' = scores ?st2"
          "X_attr st' = X_attr ?st2" "y_attr st' = y_attr ?st2"
          "length sl' = length ?sl1"
          "\<forall>i. i \<notin> set qs \<longrightarrow> sl' ! i = ?sl1 ! i"
          "\<forall>i. sl' ! i = ?sl1 ! i \<or> (i < length ?sl1 \<and> sl' ! i = Fin 0)"
      by blast+
    have a: "\<forall>i. i \<notin> set (q # qs) \<longrightarrow> sl' ! i = sl ! i"
      using ih(7) by auto
    have b: "\<forall>i. sl' ! i = sl ! i \<or> (i < length sl \<and> sl' ! i = Fin 0)"
    proof
      fix i
      show "sl' ! i = sl ! i \<or> (i < length sl \<and> sl' ! i = Fin 0)"
        using ih(8)[rule_format, of i] q by (cases "i = q") auto
    qed
    from ih(1-6) a b st1 show ?thesis by simp
  next
    case False
    from Cons.prems(1) c q False have l: "dominance_loop p qs sl st1 = (Inr sl', st')"
      by simp
    have "su_labels st1 = Some sl" using st1 Cons.prems(2) by simp
    from Cons.IH[OF l this] st1 show ?thesis by auto
  qed
qed

lemma fcbs_loop_result:
  assumes "fcbs_loop fo fo t sl st = (Inr u, st')"
    and "su_labels st = Some sl" and "result st = Some res" and "distinct fo"
  shows "\<exists>new sl'. result st' = Some (res @ new) \<and>
           scores st' = scores st @ map (\<lambda>p. sl ! p) new \<and>
           su_labels st' = Some sl' \<and> length sl' = length sl \<and>
           (\<forall>i. sl' ! i = sl ! i \<or> (i < length sl \<and> sl' ! i = Fin 0)) \<and>
           (\<forall>i. i \<notin> set fo \<longrightarrow> sl' ! i = sl ! i) \<and>
           (\<forall>p \<in> set new. p \<in> set fo \<and> p < length sl \<and> sl' ! p = sl ! p \<and>
               \<not> np_eq (sl ! p) (Fin 0) \<and> \<not> np_lt (sl ! p) t) \<and>
           X_attr st' = X_attr st \<and> y_attr st' = y_attr st"
  using assms
proof (induction fo arbitrary: sl st res)
  case Nil
  then show ?case by (intro exI[of _ "[]"] exI[of _ sl]) simp
next
  case (Cons p rest)
  from Cons.prems(1) have pl: "p < length sl" by (auto split: if_splits)
  from Cons.prems(4) have pr: "p \<notin> set rest" and dr: "distinct rest" by simp_all
  show ?case
  proof (cases "np_eq (sl ! p) (Fin 0)")
    case True
    with Cons.prems(1) pl have l: "fcbs_loop rest rest t sl st = (Inr u, st')" by simp
    from Cons.IH[OF l Cons.prems(2,3) dr] obtain new sl' where
      ih: "result st' = Some (res @ new)" "scores st' = scores st @ map (\<lambda>p. sl ! p) new"
          "su_labels st' = Some sl'" "length sl' = length sl"
          "\<forall>i. sl' ! i = sl ! i \<or> (i < length sl \<and> sl' ! i = Fin 0)"
          "\<forall>i. i \<notin> set rest \<longrightarrow> sl' ! i = sl ! i"
          "\<forall>p \<in> set new. p \<in> set rest \<and> p < length sl \<and> sl' ! p = sl ! p \<and>
               \<not> np_eq (sl ! p) (Fin 0) \<and> \<not> np_lt (sl ! p) t"
          "X_attr st' = X_attr st" "y_attr st' = y_attr st"
      by blast
    show ?thesis
      by (intro exI[of _ new] exI[of _ sl']) (use ih in auto)
  next
    case nz: False
    show ?thesis
    proof (cases "np_lt (sl ! p) t")
      case True
      with Cons.prems(1) pl nz have "st' = st" by simp
      with Cons.prems(2,3) show ?thesis
        by (intro exI[of _ "[]"] exI[of _ sl]) simp
    next
      case ge: False
      from Cons.prems(1) pl nz ge obtain sl1 st1 where
        d: "dominance_loop p rest sl st = (Inr sl1, st1)"
        by (auto split: sum.splits prod.splits)
      from dominance_loop_result[OF d Cons.prems(2)] have
        dl: "su_labels st1 = Some sl1" "result st1 = result st" "scores st1 = scores st"
            "X_attr st1 = X_attr st" "y_attr st1 = y_attr st" "length sl1 = length sl"
            "\<forall>i. i \<notin> set rest \<longrightarrow> sl1 ! i = sl ! i"
            "\<forall>i. sl1 ! i = sl ! i \<or> (i < length sl \<and> sl1 ! i = Fin 0)"
        by blast+
      let ?st2 = "st1\<lparr>result := Some (res @ [p]), scores := scores st1 @ [sl1 ! p]\<rparr>"
      from Cons.prems(1,3) pl nz ge d dl(2) have
        l: "fcbs_loop rest rest t sl1 ?st2 = (Inr u, st')" by simp
      have s2: "su_labels ?st2 = Some sl1" "result ?st2 = Some (res @ [p])"
        using dl(1) by simp_all
      from Cons.IH[OF l s2 dr] obtain new sl' where
        ih: "result st' = Some ((res @ [p]) @ new)"
            "scores st' = scores ?st2 @ map (\<lambda>p. sl1 ! p) new"
            "su_labels st' = Some sl'" "length sl' = length sl1"
            "\<forall>i. sl' ! i = sl1 ! i \<or> (i < length sl1 \<and> sl' ! i = Fin 0)"
            "\<forall>i. i \<notin> set rest \<longrightarrow> sl' ! i = sl1 ! i"
            "\<forall>p \<in> set new. p \<in> set rest \<and> p < length sl1 \<and> sl' ! p = sl1 ! p \<and>
                 \<not> np_eq (sl1 ! p) (Fin 0) \<and> \<not> np_lt (sl1 ! p) t"
            "X_attr st' = X_attr ?st2" "y_attr st' = y_attr ?st2"
        by blast
      have keep: "sl1 ! q = sl ! q" if "q \<in> set new" for q
      proof -
        from ih(7) that have "\<not> np_eq (sl1 ! q) (Fin 0)" by blast
        moreover have "np_eq (Fin 0) (Fin 0)" by simp
        ultimately have "sl1 ! q \<noteq> Fin 0" by metis
        with dl(8) show ?thesis by blast
      qed
      have p1: "sl1 ! p = sl ! p" using dl(7) pr by blast
      have p2: "sl' ! p = sl ! p" using ih(6) pr p1 by simp
      have m: "map (\<lambda>p. sl1 ! p) new = map (\<lambda>p. sl ! p) new"
        using keep by simp
      have a: "result st' = Some (res @ (p # new))" using ih(1) by simp
      have b: "scores st' = scores st @ map (\<lambda>p. sl ! p) (p # new)"
        using ih(2) m p1 dl(3) by simp
      have c: "\<forall>i. sl' ! i = sl ! i \<or> (i < length sl \<and> sl' ! i = Fin 0)"
        using ih(5) dl(6,8) by metis
      have e: "\<forall>i. i \<notin> set (p # rest) \<longrightarrow> sl' ! i = sl ! i"
        using ih(6) dl(7) by simp
      have f: "\<forall>q \<in> set (p # new). q \<in> set (p # rest) \<and> q < length sl \<and> sl' ! q = sl ! q \<and>
               \<not> np_eq (sl ! q) (Fin 0) \<and> \<not> np_lt (sl ! q) t"
      proof
        fix q assume "q \<in> set (p # new)"
        then consider "q = p" | "q \<in> set new" by auto
        then show "q \<in> set (p # rest) \<and> q < length sl \<and> sl' ! q = sl ! q \<and>
               \<not> np_eq (sl ! q) (Fin 0) \<and> \<not> np_lt (sl ! q) t"
        proof cases
          case 1
          then show ?thesis using pl p2 nz ge by simp
        next
          case 2
          with ih(7) keep[OF 2] dl(6) show ?thesis by auto
        qed
      qed
      show ?thesis
        apply (intro exI[of _ "p # new"] exI[of _ sl'])
        using a b ih(3) ih(4) dl(6) c e f ih(8,9) dl(4,5) by simp
    qed
  qed
qed

lemma argsort_set: "set (argsort ks) = {..<length ks}"
  by (auto simp: argsort_def)

lemma argsort_distinct: "distinct (argsort ks)"
  by (simp add: argsort_def)

lemma np_not_lt_cases: "\<not> np_lt v t \<Longrightarrow> t \<noteq> NaN \<Longrightarrow> v = NaN \<or> np_ge v t"
  by (cases v; cases t) (auto simp: np_ge_def)

lemma fcbs_result:
  assumes "fcbs st X y t = (Inr u, st')"
  shows "\<exists>orig res sl'. length orig = length X \<and>
           (\<forall>i < length X. symmetrical_uncertainty (X ! i) y = Inr (orig ! i)) \<and>
           result st' = Some res \<and> scores st' = map (\<lambda>p. orig ! p) res \<and>
           su_labels st' = Some sl' \<and> length sl' = length orig \<and>
           (\<forall>i. sl' ! i = orig ! i \<or> (i < length orig \<and> sl' ! i = Fin 0)) \<and>
           (\<forall>p \<in> set res. p < length X \<and> sl' ! p = orig ! p \<and>
               \<not> np_eq (orig ! p) (Fin 0) \<and> \<not> np_lt (orig ! p) t)"
proof -
  let ?st1 = "(initialize st)\<lparr>X_attr := Some X, y_attr := Some y\<rparr>"
  from assms have nt: "\<not> np_lt t (Fin (1 / 10 ^ 4))"
    by (auto simp: fcbs_def split: if_splits)
  with assms obtain orig st2 where
    c: "compute_su_labels ?st1 = (Inr orig, st2)" and
    l: "fcbs_loop (argsort (map np_neg orig)) (argsort (map np_neg orig)) t orig
          (st2\<lparr>result := Some []\<rparr>) = (Inr u, st')"
    unfolding fcbs_def Let_def by (auto split: prod.splits sum.splits)
  have "X_attr ?st1 = Some X" "y_attr ?st1 = Some y" "su_labels ?st1 = None"
    by (simp_all add: initialize_def)
  from compute_su_labels_result[OF c this] have
    o: "st2 = ?st1\<lparr>su_labels := Some orig\<rparr>" "length orig = length X"
       "\<forall>i < length X. symmetrical_uncertainty (X ! i) y = Inr (orig ! i)"
    by blast+
  let ?st3 = "st2\<lparr>result := Some []\<rparr>"
  have s3: "su_labels ?st3 = Some orig" "result ?st3 = Some []" "scores ?st3 = []"
    using o(1) by (simp_all add: initialize_def)
  from fcbs_loop_result[OF l s3(1,2) argsort_distinct] obtain new sl' where
    r: "result st' = Some ([] @ new)" "scores st' = scores ?st3 @ map (\<lambda>p. orig ! p) new"
       "su_labels st' = Some sl'" "length sl' = length orig"
       "\<forall>i. sl' ! i = orig ! i \<or> (i < length orig \<and> sl' ! i = Fin 0)"
       "\<forall>p \<in> set new. p \<in> set (argsort (map np_neg orig)) \<and> p < length orig \<and>
           sl' ! p = orig ! p \<and> \<not> np_eq (orig ! p) (Fin 0) \<and> \<not> np_lt (orig ! p) t"
    by blast
  show ?thesis
  proof (rule exI[of _ orig], rule exI[of _ new], rule exI[of _ sl'])
    show "length orig = length X \<and>
      (\<forall>i<length X. symmetrical_uncertainty (X ! i) y = Inr (orig ! i)) \<and>
      result st' = Some new \<and> scores st' = map ((!) orig) new \<and>
      su_labels st' = Some sl' \<and> length sl' = length orig \<and>
      (\<forall>i. sl' ! i = orig ! i \<or> i < length orig \<and> sl' ! i = Fin 0) \<and>
      (\<forall>p\<in>set new. p < length X \<and> sl' ! p = orig ! p \<and>
          \<not> np_eq (orig ! p) (Fin 0) \<and> \<not> np_lt (orig ! p) t)"
      using o(2,3) r s3(3) by simp
  qed
qed


lemma su_same: "symmetrical_uncertainty [0, 0, 1, 1 :: int] [0, 0, 1, 1 :: int] = Inr (Fin 1)"
  by (simp add: symmetrical_uncertainty_def information_gain_def conditional_entropy_def
      np_c_def entropy_0011 entropy_pairs_same np_sub_def)

lemma entropy_const2: "entropy [1, 1 :: int] 2 = Inr (Fin 0)"
  by (simp add: entropy_def unique_counts_def)

lemma entropy_const2': "entropy [0, 0 :: int] 2 = Inr (Fin 0)"
  by (simp add: entropy_def unique_counts_def)

lemma entropy_const2_pairs: "entropy [(1, 0), (1, 0) :: int \<times> int] 2 = Inr (Fin 0)"
  by (simp add: entropy_def unique_counts_def)

lemma su_const: "symmetrical_uncertainty [1, 1 :: int] [0, 0 :: int] = Inr NaN"
  by (simp add: symmetrical_uncertainty_def information_gain_def conditional_entropy_def
      np_c_def entropy_const2 entropy_const2' entropy_const2_pairs np_sub_def)

lemma argsort1: "argsort [k] = [0]"
  by (simp add: argsort_def)

lemma argsort2_eq: "argsort [Fin a, Fin a] = [0, 1]"
  by (simp add: argsort_def)

lemma fcbs_const_run:
  "fcbs MFS_new [[1, 1]] [0, 0] (Fin (1 / 20)) =
     (Inr (), \<lparr>result = Some [0], scores = [NaN], su_labels = Some [NaN],
               su_features = Map.empty, X_attr = Some [[1, 1]], y_attr = Some [0, 0]\<rparr>)"
  by (simp add: fcbs_def MFS_new_def initialize_def compute_su_labels_def su_const argsort1)

lemma fcbs_dup_run:
  "fcbs MFS_new [[0, 0, 1, 1], [0, 0, 1, 1]] [0, 0, 1, 1] (Fin (1 / 20)) =
     (Inr (), \<lparr>result = Some [0], scores = [Fin 1], su_labels = Some [Fin 1, Fin 0],
               su_features = [(0, 1) \<mapsto> Fin 1],
               X_attr = Some [[0, 0, 1, 1], [0, 0, 1, 1]], y_attr = Some [0, 0, 1, 1]\<rparr>)"
  by (simp add: fcbs_def MFS_new_def initialize_def compute_su_labels_def su_same argsort2_eq
      compute_su_features_def np_ge_def upt_rec Let_def)

lemma init_state_eq:
  "(initialize st)\<lparr>X_attr := Some X, y_attr := Some y\<rparr> =
   (initialize st')\<lparr>X_attr := Some X, y_attr := Some y\<rparr>"
  by (simp add: initialize_def)

lemma cfs_state_independent: "cfs st X y = cfs st' X y"
  unfolding cfs_def init_state_eq[where st=st and st'=st'] ..

lemma fcbs_state_independent:
  "\<not> np_lt threshold (Fin (1 / 10 ^ 4)) \<Longrightarrow> fcbs st X y threshold = fcbs st' X y threshold"
  unfolding fcbs_def init_state_eq[where st=st and st'=st'] by simp

text \<open>
  Claim C5. A call of \<open>fcbs\<close> with a threshold below \<open>1e-4\<close> raises the
  invalid-threshold error and leaves the engine exactly as it was (result, score
  trace, both caches and the stored dataset); with a threshold that is not below
  \<open>1e-4\<close> that error is never raised.
\<close>

theorem fcbs_threshold_check:
  "(np_lt threshold (Fin (1 / 10 ^ 4)) \<longrightarrow>
      fcbs st X y threshold = (Inl (ValueError ''Threshold cannot be less than 1e-4''), st)) \<and>
   (\<not> np_lt threshold (Fin (1 / 10 ^ 4)) \<longrightarrow>
      fst (fcbs st X y threshold) \<noteq> Inl (ValueError ''Threshold cannot be less than 1e-4''))"
proof -
  have "fst (fcbs st X y threshold) \<noteq> Inl threshold_error"
    if "\<not> np_lt threshold (Fin (1 / 10 ^ 4))"
  proof
    assume a: "fst (fcbs st X y threshold) = Inl threshold_error"
    then obtain st' where "fcbs st X y threshold = (Inl threshold_error, st')"
      by (cases "fcbs st X y threshold") auto
    with that show False
      unfolding fcbs_def Let_def
      by (auto split: prod.splits sum.splits
          dest: compute_su_labels_not_thr fcbs_loop_not_thr)
  qed
  then show ?thesis
    by (auto simp: fcbs_def threshold_error_def)
qed

theorem fcbs_threshold_check_witness:
  "np_lt (Fin (1 / 10 ^ 5)) (Fin (1 / 10 ^ 4)) \<and>
   fcbs MFS_new [[0, 0, 1, 1], [0, 0, 1, 1]] [0, 0, 1, 1] (Fin (1 / 10 ^ 5)) =
     (Inl (ValueError ''Threshold cannot be less than 1e-4''), MFS_new) \<and>
   \<not> np_lt (Fin (1 / 20)) (Fin (1 / 10 ^ 4)) \<and>
   fst (fcbs MFS_new [[0, 0, 1, 1], [0, 0, 1, 1]] [0, 0, 1, 1] (Fin (1 / 20))) = Inr ()"
  using fcbs_threshold_check [of "Fin (1 / 10 ^ 5)" MFS_new
          "[[0, 0, 1, 1], [0, 0, 1, 1]]" "[0, 0, 1, 1]"]
        fcbs_threshold_check [of "Fin (1 / 20)" MFS_new
          "[[0, 0, 1, 1], [0, 0, 1, 1]]" "[0, 0, 1, 1]"]
  by (simp add: fcbs_dup_run)

text \<open>
  Claim C10. Whatever state the engine is in, \<open>cfs\<close> behaves as on a freshly
  constructed engine, and so does \<open>fcbs\<close> once its threshold check has passed: the
  run starts from cleared per-run state, so its outcome (result, score trace and
  caches included) depends on the arguments only.
\<close>

theorem runs_independent_of_prior_state:
  "cfs st X y = cfs MFS_new X y \<and>
   (\<not> np_lt threshold (Fin (1 / 10 ^ 4)) \<longrightarrow>
      fcbs st X y threshold = fcbs MFS_new X y threshold)"
  using cfs_state_independent fcbs_state_independent by blast

theorem runs_independent_of_prior_state_witness:
  "\<not> np_lt (Fin (1 / 20)) (Fin (1 / 10 ^ 4)) \<and>
   cfs \<lparr>result = Some [7], scores = [Fin 3], su_labels = Some [Fin 9],
        su_features = [(0, 1) \<mapsto> Fin 5], X_attr = None, y_attr = None\<rparr>
       [[0, 0, 1, 1], [0, 0, 1, 1]] [0, 0, 1, 1] =
     cfs MFS_new [[0, 0, 1, 1], [0, 0, 1, 1]] [0, 0, 1, 1] \<and>
   fcbs \<lparr>result = Some [7], scores = [Fin 3], su_labels = Some [Fin 9],
         su_features = [(0, 1) \<mapsto> Fin 5], X_attr = None, y_attr = None\<rparr>
       [[0, 0, 1, 1], [0, 0, 1, 1]] [0, 0, 1, 1] (Fin (1 / 20)) =
     (Inr (), \<lparr>result = Some [0], scores = [Fin 1], su_labels = Some [Fin 1, Fin 0],
               su_features = [(0, 1) \<mapsto> Fin 1],
               X_attr = Some [[0, 0, 1, 1], [0, 0, 1, 1]], y_attr = Some [0, 0, 1, 1]\<rparr>)"
  using runs_independent_of_prior_state [of
          "\<lparr>result = Some [7], scores = [Fin 3], su_labels = Some [Fin 9],
            su_features = [(0, 1) \<mapsto> Fin 5], X_attr = None, y_attr = None\<rparr>"
          "[[0, 0, 1, 1], [0, 0, 1, 1]]" "[0, 0, 1, 1]" "Fin (1 / 20)"]
  by (simp add: fcbs_dup_run)

text \<open>
  Claim C9. Calling \<open>cfs\<close> (or \<open>fcbs\<close>) a second time on the same engine with the
  same arguments gives the same outcome as the first call: the same return or
  error and the same engine state, hence the same result and score sequences.
\<close>

theorem repeated_call_same_outcome:
  "cfs (snd (cfs st X y)) X y = cfs st X y \<and>
   fcbs (snd (fcbs st X y threshold)) X y threshold = fcbs st X y threshold"
proof
  show "cfs (snd (cfs st X y)) X y = cfs st X y" by (rule cfs_state_independent)
  show "fcbs (snd (fcbs st X y threshold)) X y threshold = fcbs st X y threshold"
  proof (cases "np_lt threshold (Fin (1 / 10 ^ 4))")
    case True
    then show ?thesis by (simp add: fcbs_def)
  next
    case False
    then show ?thesis by (rule fcbs_state_independent)
  qed
qed

text \<open>
  Claim C3 says that every feature returned by \<open>fcbs\<close> has a label-correlation
  score that is at least the threshold. A constant feature against a constant label
  has the score 0/0, which is \<open>nan\<close>; it is neither equal to 0 nor below the
  threshold, so the feature is returned, and \<open>nan\<close> is not at least the threshold.
\<close>

theorem fcbs_nan_score_counterexample:
  "fcbs MFS_new [[1, 1]] [0, 0] (Fin (1 / 20)) =
     (Inr (), \<lparr>result = Some [0], scores = [NaN], su_labels = Some [NaN],
               su_features = Map.empty, X_attr = Some [[1, 1]], y_attr = Some [0, 0]\<rparr>) \<and>
   np_ge (Fin (1 / 20)) (Fin (1 / 10 ^ 4)) \<and>
   symmetrical_uncertainty ([[1, 1 :: int]] ! 0) [0, 0 :: int] = Inr NaN \<and>
   \<not> np_ge NaN (Fin (1 / 20))"
  by (simp add: fcbs_const_run su_const np_ge_def)

text \<open>
  Claim C3, amended. For a threshold of at least \<open>1e-4\<close>, every feature index in the
  result of a run of \<open>fcbs\<close> that returns is a column of \<open>X\<close> whose symmetrical
  uncertainty with the label is not below the threshold: it is at least the
  threshold, or it is \<open>nan\<close>.
\<close>

theorem fcbs_result_not_below_threshold:
  assumes "fcbs st X y t = (Inr u, st')" and "np_ge t (Fin (1 / 10 ^ 4))"
  shows "\<exists>res. result st' = Some res \<and>
           (\<forall>p \<in> set res. p < length X \<and>
              (\<exists>v. symmetrical_uncertainty (X ! p) y = Inr v \<and> \<not> np_lt v t \<and>
                   (v = NaN \<or> np_ge v t)))"
proof -
  from assms(2) have tn: "t \<noteq> NaN" by (cases t) (auto simp: np_ge_def)
  from fcbs_result[OF assms(1)] obtain orig res sl' where
    r: "length orig = length X"
       "\<forall>i < length X. symmetrical_uncertainty (X ! i) y = Inr (orig ! i)"
       "result st' = Some res"
       "\<forall>p \<in> set res. p < length X \<and> sl' ! p = orig ! p \<and>
               \<not> np_eq (orig ! p) (Fin 0) \<and> \<not> np_lt (orig ! p) t"
    by blast
  have "p < length X \<and>
        (\<exists>v. symmetrical_uncertainty (X ! p) y = Inr v \<and> \<not> np_lt v t \<and> (v = NaN \<or> np_ge v t))"
    if "p \<in> set res" for p
  proof -
    from r(4) that have a: "p < length X" "\<not> np_lt (orig ! p) t" by blast+
    from r(2) a(1) have "symmetrical_uncertainty (X ! p) y = Inr (orig ! p)" by blast
    with a np_not_lt_cases[OF a(2) tn] show ?thesis by blast
  qed
  with r(3) show ?thesis by blast
qed

theorem fcbs_result_not_below_threshold_witness:
  "fcbs MFS_new [[0, 0, 1, 1], [0, 0, 1, 1]] [0, 0, 1, 1] (Fin (1 / 20)) =
     (Inr (), \<lparr>result = Some [0], scores = [Fin 1], su_labels = Some [Fin 1, Fin 0],
               su_features = [(0, 1) \<mapsto> Fin 1],
               X_attr = Some [[0, 0, 1, 1], [0, 0, 1, 1]], y_attr = Some [0, 0, 1, 1]\<rparr>) \<and>
   np_ge (Fin (1 / 20)) (Fin (1 / 10 ^ 4)) \<and> (0::nat) \<in> set [0] \<and>
   symmetrical_uncertainty ([[0, 0, 1, 1], [0, 0, 1, 1 :: int]] ! 0) [0, 0, 1, 1 :: int] = Inr (Fin 1) \<and>
   \<not> np_lt (Fin 1) (Fin (1 / 20)) \<and> np_ge (Fin 1) (Fin (1 / 20))"
  using fcbs_result_not_below_threshold [OF fcbs_dup_run]
  by (simp add: fcbs_dup_run su_same np_ge_def)

text \<open>
  Claim C4 says that the label-correlation cache still holds the computed value of
  every feature after a run of \<open>fcbs\<close>. The working scores of \<open>fcbs\<close> are the cache
  itself, not a copy: with two equal columns the second is dominated by the first,
  and its cache entry is 0 after the run although its symmetrical uncertainty with
  the label is 1.
\<close>

theorem fcbs_cache_counterexample:
  "su_labels (snd (fcbs MFS_new [[0, 0, 1, 1], [0, 0, 1, 1]] [0, 0, 1, 1] (Fin (1 / 20))))
     = Some [Fin 1, Fin 0] \<and>
   symmetrical_uncertainty ([[0, 0, 1, 1], [0, 0, 1, 1 :: int]] ! 1) [0, 0, 1, 1 :: int] = Inr (Fin 1)"
  by (simp add: fcbs_dup_run su_same)

text \<open>
  Claim C4, amended. After a run of \<open>fcbs\<close> that returns, the label-correlation
  cache has one entry per feature; each entry is the symmetrical uncertainty of the
  feature with the label as it was computed, or 0 (the feature was zeroed by a
  dominance step), and the entry of every feature in the result is the computed
  value.
\<close>

theorem fcbs_cache_after_run:
  assumes "fcbs st X y t = (Inr u, st')"
  shows "\<exists>sl res. su_labels st' = Some sl \<and> result st' = Some res \<and> length sl = length X \<and>
           (\<forall>i < length X. symmetrical_uncertainty (X ! i) y = Inr (sl ! i) \<or> sl ! i = Fin 0) \<and>
           (\<forall>p \<in> set res. p < length X \<and> symmetrical_uncertainty (X ! p) y = Inr (sl ! p))"
proof -
  from fcbs_result[OF assms(1)] obtain orig res sl' where
    r: "length orig = length X"
       "\<forall>i < length X. symmetrical_uncertainty (X ! i) y = Inr (orig ! i)"
       "result st' = Some res" "su_labels st' = Some sl'" "length sl' = length orig"
       "\<forall>i. sl' ! i = orig ! i \<or> (i < length orig \<and> sl' ! i = Fin 0)"
       "\<forall>p \<in> set res. p < length X \<and> sl' ! p = orig ! p \<and>
               \<not> np_eq (orig ! p) (Fin 0) \<and> \<not> np_lt (orig ! p) t"
    by blast
  have a: "\<forall>i < length X. symmetrical_uncertainty (X ! i) y = Inr (sl' ! i) \<or> sl' ! i = Fin 0"
    using r(2,6) by metis
  have b: "\<forall>p \<in> set res. p < length X \<and> symmetrical_uncertainty (X ! p) y = Inr (sl' ! p)"
    using r(2,7) by metis
  from r(3,4,5) r(1) a b show ?thesis by auto
qed

theorem fcbs_cache_after_run_witness:
  "fcbs MFS_new [[0, 0, 1, 1], [0, 0, 1, 1]] [0, 0, 1, 1] (Fin (1 / 20)) =
     (Inr (), \<lparr>result = Some [0], scores = [Fin 1], su_labels = Some [Fin 1, Fin 0],
               su_features = [(0, 1) \<mapsto> Fin 1],
               X_attr = Some [[0, 0, 1, 1], [0, 0, 1, 1]], y_attr = Some [0, 0, 1, 1]\<rparr>) \<and>
   (0::nat) < length [[0, 0, 1, 1], [0, 0, 1, 1 :: int]] \<and> (0::nat) \<in> set [0] \<and>
   symmetrical_uncertainty ([[0, 0, 1, 1], [0, 0, 1, 1 :: int]] ! 0) [0, 0, 1, 1 :: int]
     = Inr ([Fin 1, Fin 0] ! 0) \<and>
   [Fin 1, Fin 0] ! 1 = Fin 0"
  using fcbs_cache_after_run [OF fcbs_dup_run]
  by (simp add: fcbs_dup_run su_same)

lemma su_nonneg_or_nan: "symmetrical_uncertainty x y = Inr v \<Longrightarrow> nonneg_or_nan v"
  using su_range[of x y v] by auto

lemma nonneg_or_nan_add: "nonneg_or_nan a \<Longrightarrow> nonneg_or_nan b \<Longrightarrow> nonneg_or_nan (np_add a b)"
  by (cases a; cases b) auto

lemma nonneg_or_nan_foldl:
  "nonneg_or_nan a \<Longrightarrow> \<forall>v \<in> set vs. nonneg_or_nan v \<Longrightarrow> nonneg_or_nan (foldl np_add a vs)"
  by (induction vs arbitrary: a) (auto simp: nonneg_or_nan_add)

lemma np_sqrt_radicand:
  assumes "nonneg_or_nan rff"
  shows "\<exists>d. np_sqrt (np_add (Fin (real k)) (np_mul (Fin (real c)) rff)) = Inr d"
proof (cases rff)
  case (Fin r)
  with assms have "0 \<le> real c * r" by simp
  then have "\<not> real k + real c * r < 0" by (simp add: add_nonneg_nonneg not_less)
  with Fin show ?thesis by simp
qed (use assms in auto)

lemma np_add_zero_left: "np_add (Fin 0) v = v"
  by (cases v) auto

lemma np_div_one: "np_div v (Fin 1) = v"
  by (cases v) auto

lemma compute_su_features_consistent:
  assumes "X_attr st = Some X" and "cache_consistent X (su_features st)"
    and "a < length X" and "b < length X" and "length (X ! a) = length (X ! b)"
  shows "\<exists>v m. compute_su_features st a b = (Inr v, st\<lparr>su_features := m\<rparr>) \<and>
           symmetrical_uncertainty (X ! a) (X ! b) = Inr v \<and> cache_consistent X m"
proof (cases "su_features st (a, b)")
  case None
  from su_total[OF assms(5)] obtain v where v: "symmetrical_uncertainty (X ! a) (X ! b) = Inr v" ..
  let ?m = "(su_features st)((a, b) \<mapsto> v)"
  have "compute_su_features st a b = (Inr v, st\<lparr>su_features := ?m\<rparr>)"
    using None assms(1,3,4) v by (simp add: compute_su_features_def)
  moreover have "cache_consistent X ?m"
    using assms(2) v by (auto simp: cache_consistent_def)
  ultimately show ?thesis using v by blast
next
  case (Some v)
  have "compute_su_features st a b = (Inr v, st\<lparr>su_features := su_features st\<rparr>)"
    using Some by (simp add: compute_su_features_def)
  moreover have "symmetrical_uncertainty (X ! a) (X ! b) = Inr v"
    using assms(2) Some by (simp add: cache_consistent_def)
  ultimately show ?thesis using assms(2) by blast
qed

lemma rff_loop_consistent:
  assumes "X_attr st = Some X" and "cache_consistent X (su_features st)"
    and "\<forall>p \<in> set pairs. fst p < length X \<and> snd p < length X \<and>
            length (X ! fst p) = length (X ! snd p)"
  shows "\<exists>sc m. rff_loop pairs rff st = (Inr (foldl np_add rff (map sc pairs)), st\<lparr>su_features := m\<rparr>) \<and>
           (\<forall>p \<in> set pairs. symmetrical_uncertainty (X ! fst p) (X ! snd p) = Inr (sc p)) \<and>
           cache_consistent X m"
  using assms
proof (induction pairs arbitrary: rff st)
  case Nil
  have "rff_loop [] rff st = (Inr (foldl np_add rff (map (\<lambda>p. NaN) [])),
          st\<lparr>su_features := su_features st\<rparr>)" by simp
  with Nil.prems(2) show ?case by (intro exI[of _ "\<lambda>p. NaN"] exI[of _ "su_features st"]) simp
next
  case (Cons p pairs)
  from Cons.prems(3) have pr: "fst p < length X" "snd p < length X"
    "length (X ! fst p) = length (X ! snd p)" by simp_all
  from compute_su_features_consistent[OF Cons.prems(1,2) pr] obtain v m where
    c: "compute_su_features st (fst p) (snd p) = (Inr v, st\<lparr>su_features := m\<rparr>)"
       "symmetrical_uncertainty (X ! fst p) (X ! snd p) = Inr v" "cache_consistent X m"
    by blast
  let ?st1 = "st\<lparr>su_features := m\<rparr>"
  have x1: "X_attr ?st1 = Some X" using Cons.prems(1) by simp
  have c1: "cache_consistent X (su_features ?st1)" using c(3) by simp
  have r1: "\<forall>p \<in> set pairs. fst p < length X \<and> snd p < length X \<and>
            length (X ! fst p) = length (X ! snd p)" using Cons.prems(3) by simp
  from Cons.IH[OF x1 c1 r1, of "np_add rff v"] obtain sc m' where
    ih: "rff_loop pairs (np_add rff v) ?st1 =
           (Inr (foldl np_add (np_add rff v) (map sc pairs)), ?st1\<lparr>su_features := m'\<rparr>)"
        "\<forall>p \<in> set pairs. symmetrical_uncertainty (X ! fst p) (X ! snd p) = Inr (sc p)"
        "cache_consistent X m'"
    by blast
  define sc' where "sc' = (\<lambda>q. case symmetrical_uncertainty (X ! fst q) (X ! snd q) of
                                  Inr w \<Rightarrow> w | Inl e \<Rightarrow> NaN)"
  have e: "\<forall>q \<in> set (p # pairs). symmetrical_uncertainty (X ! fst q) (X ! snd q) = Inr (sc' q)"
    using c(2) ih(2) by (auto simp: sc'_def)
  have me: "map sc pairs = map sc' pairs" using ih(2) by (auto simp: sc'_def)
  have sp: "sc' p = v" using c(2) by (simp add: sc'_def)
  have "rff_loop (p # pairs) rff st = rff_loop pairs (np_add rff v) ?st1"
    using c(1) by simp
  also have "\<dots> = (Inr (foldl np_add (np_add rff v) (map sc' pairs)), st\<lparr>su_features := m'\<rparr>)"
    using ih(1)[unfolded me] by simp
  also have "foldl np_add (np_add rff v) (map sc' pairs) = foldl np_add rff (map sc' (p # pairs))"
    using sp by simp
  finally have "rff_loop (p # pairs) rff st =
      (Inr (foldl np_add rff (map sc' (p # pairs))), st\<lparr>su_features := m'\<rparr>)" .
  with e ih(3) show ?case by blast
qed

lemma combinations2_set: "p \<in> set (combinations2 xs) \<Longrightarrow> fst p \<in> set xs \<and> snd p \<in> set xs"
  by (induction xs) auto

lemma compute_merit_consistent:
  assumes "su_labels st = Some sl" and "X_attr st = Some X"
    and "\<forall>f \<in> set features. f < length sl \<and> f < length X"
    and "\<forall>a \<in> set features. \<forall>b \<in> set features. length (X ! a) = length (X ! b)"
    and "cache_consistent X (su_features st)"
  shows "\<exists>sc d m.
           (\<forall>p \<in> set (combinations2 features).
               symmetrical_uncertainty (X ! fst p) (X ! snd p) = Inr (sc p)) \<and>
           np_sqrt (np_add (Fin (real (length features)))
                     (np_mul (Fin (real (length features ^ 2 - length features)))
                        (np_sum (map sc (combinations2 features))))) = Inr d \<and>
           compute_merit st features =
             (Inr (np_div (np_sum (map (\<lambda>f. sl ! f) features)) d), st\<lparr>su_features := m\<rparr>) \<and>
           cache_consistent X m"
proof -
  let ?pairs = "combinations2 features"
  let ?k = "length features"
  have pr: "\<forall>p \<in> set ?pairs. fst p < length X \<and> snd p < length X \<and>
            length (X ! fst p) = length (X ! snd p)"
    using assms(3,4) combinations2_set[of _ features] by blast
  from rff_loop_consistent[OF assms(2,5) pr, of "Fin 0"] obtain sc m where
    r: "rff_loop ?pairs (Fin 0) st = (Inr (np_sum (map sc ?pairs)), st\<lparr>su_features := m\<rparr>)"
       "\<forall>p \<in> set ?pairs. symmetrical_uncertainty (X ! fst p) (X ! snd p) = Inr (sc p)"
       "cache_consistent X m"
    unfolding np_sum_def by blast
  have "\<forall>v \<in> set (map sc ?pairs). nonneg_or_nan v"
    using r(2) su_nonneg_or_nan by fastforce
  then have "nonneg_or_nan (np_sum (map sc ?pairs))"
    unfolding np_sum_def by (intro nonneg_or_nan_foldl) simp_all
  from np_sqrt_radicand[OF this, of ?k "?k ^ 2 - ?k"] obtain d where
    d: "np_sqrt (np_add (Fin (real ?k)) (np_mul (Fin (real (?k ^ 2 - ?k)))
          (np_sum (map sc ?pairs)))) = Inr d" ..
  have nr: "\<not> (\<exists>f \<in> set features. length sl \<le> f)" using assms(3) by auto
  have "compute_merit st features =
          (Inr (np_div (np_sum (map (\<lambda>f. sl ! f) features)) d), st\<lparr>su_features := m\<rparr>)"
    unfolding compute_merit_def using assms(1) nr r(1) d by (simp add: Let_def)
  with r(2,3) d show ?thesis by blast
qed

lemma compute_merit_single:
  assumes "su_labels st = Some sl" and "f < length sl"
  shows "compute_merit st [f] = (Inr (sl ! f), st)"
  using assms
  by (simp add: compute_merit_def np_sum_def np_add_zero_left np_div_one power2_eq_square)

lemma np_lt_trans: "np_lt a b \<Longrightarrow> np_lt b c \<Longrightarrow> np_lt a c"
  by (cases a; cases b; cases c) auto

lemma np_lt_irrefl: "\<not> np_lt a a"
  by (cases a) auto

lemma float_info_min_pos: "0 < float_info_min"
  by (simp add: float_info_min_def)

lemma above_min_not_sentinel:
  "np_gt v (Fin float_info_min) \<Longrightarrow> \<not> np_eq v (Fin (- 1))"
  using float_info_min_pos by (cases v) (auto simp: np_gt_def)

lemma nonneg_or_nan_not_sentinel: "nonneg_or_nan v \<Longrightarrow> \<not> np_eq v (Fin (- 1))"
  by (cases v) auto

lemma stagnation_scan_from:
  "\<not> np_eq a (Fin (- 1)) \<Longrightarrow> \<forall>v \<in> set xs. \<not> np_eq v (Fin (- 1)) \<Longrightarrow>
   stagnation_scan a xs = non_increasing (a # xs)"
  by (induction xs arbitrary: a) (auto simp: Let_def)

lemma stagnation_scan_non_increasing:
  assumes "\<forall>v \<in> set xs. \<not> np_eq v (Fin (- 1))"
  shows "stagnation_scan (Fin (- 1)) xs = non_increasing xs"
proof (cases xs)
  case Nil
  then show ?thesis by simp
next
  case (Cons x rest)
  have "stagnation_scan (Fin (- 1)) (x # rest) = stagnation_scan x rest"
    by (simp add: Let_def np_gt_def np_lt_irrefl)
  also have "\<dots> = non_increasing (x # rest)"
    using assms Cons by (intro stagnation_scan_from) simp_all
  finally show ?thesis using Cons by simp
qed

lemma rff_loop_frame:
  "rff_loop pairs rff st = (r, st') \<Longrightarrow> \<exists>m. st' = st\<lparr>su_features := m\<rparr>"
proof (induction pairs arbitrary: rff st)
  case Nil
  then show ?case by (auto intro: exI[of _ "su_features st"])
next
  case (Cons p pairs)
  obtain r1 st1 where c: "compute_su_features st (fst p) (snd p) = (r1, st1)"
    by (cases "compute_su_features st (fst p) (snd p)")
  from compute_su_features_frame[OF c] obtain m1 where m1: "st1 = st\<lparr>su_features := m1\<rparr>" ..
  show ?case
  proof (cases r1)
    case (Inl e)
    with Cons.prems c m1 show ?thesis by auto
  next
    case (Inr v)
    with Cons.prems c have "rff_loop pairs (np_add rff v) st1 = (r, st')" by simp
    from Cons.IH[OF this] obtain m where "st' = st1\<lparr>su_features := m\<rparr>" ..
    with m1 show ?thesis by auto
  qed
qed

lemma compute_merit_frame:
  assumes "compute_merit st features = (r, st')"
  shows "\<exists>m. st' = st\<lparr>su_features := m\<rparr>"
proof -
  have same: "\<exists>m. st = st\<lparr>su_features := m\<rparr>" by (auto intro: exI[of _ "su_features st"])
  show ?thesis
  proof (cases "su_labels st")
    case None
    with assms same show ?thesis by (simp add: compute_merit_def)
  next
    case (Some sl)
    show ?thesis
    proof (cases "\<exists>f \<in> set features. length sl \<le> f")
      case True
      with assms Some same show ?thesis by (simp add: compute_merit_def)
    next
      case False
      obtain r1 st1 where l: "rff_loop (combinations2 features) (Fin 0) st = (r1, st1)"
        by (cases "rff_loop (combinations2 features) (Fin 0) st")
      from rff_loop_frame[OF l] obtain m where m: "st1 = st\<lparr>su_features := m\<rparr>" ..
      from assms Some False l have "st' = st1"
        by (auto simp: compute_merit_def Let_def split: sum.splits)
      with m show ?thesis by auto
    qed
  qed
qed

lemma expand_loop_result:
  assumes "expand_loop xs cands m0 id0 st = (Inr (m, sel), st')"
  shows "(\<exists>mp. st' = st\<lparr>su_features := mp\<rparr>) \<and>
         ((m = m0 \<and> sel = id0) \<or> (np_gt m m0 \<and> (\<exists>p \<in> set xs. sel = Some (fst p))))"
  using assms
proof (induction xs arbitrary: m0 id0 st)
  case Nil
  then show ?case by (auto intro: exI[of _ "su_features st"])
next
  case (Cons x xs)
  obtain idx feature where x: "x = (idx, feature)" by (cases x)
  obtain r1 st1 where c: "compute_merit st (cands @ [feature]) = (r1, st1)"
    by (cases "compute_merit st (cands @ [feature])")
  from compute_merit_frame[OF c] obtain m1 where m1: "st1 = st\<lparr>su_features := m1\<rparr>" ..
  from Cons.prems x c obtain mn where mn: "r1 = Inr mn" by (cases r1) auto
  show ?case
  proof (cases "np_gt mn m0")
    case True
    with Cons.prems x c mn have "expand_loop xs cands mn (Some idx) st1 = (Inr (m, sel), st')"
      by simp
    from Cons.IH[OF this] have
      ih: "\<exists>mp. st' = st1\<lparr>su_features := mp\<rparr>"
          "(m = mn \<and> sel = Some idx) \<or> (np_gt m mn \<and> (\<exists>p \<in> set xs. sel = Some (fst p)))"
      by blast+
    from ih(1) m1 have f: "\<exists>mp. st' = st\<lparr>su_features := mp\<rparr>" by auto
    from ih(2) True x have "np_gt m m0 \<and> (\<exists>p \<in> set (x # xs). sel = Some (fst p))"
      by (auto simp: np_gt_def intro: np_lt_trans)
    with f show ?thesis by blast
  next
    case False
    with Cons.prems x c mn have "expand_loop xs cands m0 id0 st1 = (Inr (m, sel), st')"
      by simp
    from Cons.IH[OF this] have
      ih: "\<exists>mp. st' = st1\<lparr>su_features := mp\<rparr>"
          "(m = m0 \<and> sel = id0) \<or> (np_gt m m0 \<and> (\<exists>p \<in> set xs. sel = Some (fst p)))"
      by blast+
    from ih(1) m1 have f: "\<exists>mp. st' = st\<lparr>su_features := mp\<rparr>" by auto
    with ih(2) show ?thesis by auto
  qed
qed

lemma last5_set: "set (last5 xs) \<subseteq> set xs"
  by (simp add: last5_def set_drop_subset)

lemma cfs_loop_step:
  assumes "cfs_loop fo cands st = (Inr res, st')"
  obtains m i mp where
    "expand_loop (zip [0..<length fo] fo) cands (Fin float_info_min) None st
       = (Inr (m, Some i), st\<lparr>su_features := mp\<rparr>)"
    "i < length fo" "np_gt m (Fin float_info_min)"
    "if del_at fo i \<noteq> [] \<and>
        \<not> (5 \<le> length (scores st @ [m]) \<and> stagnation_scan (Fin (- 1)) (last5 (scores st @ [m])))
     then cfs_loop (del_at fo i) (cands @ [fo ! i])
            (st\<lparr>su_features := mp, scores := scores st @ [m]\<rparr>) = (Inr res, st')
     else res = cands @ [fo ! i] \<and> st' = st\<lparr>su_features := mp, scores := scores st @ [m]\<rparr>"
proof -
  let ?e = "expand_loop (zip [0..<length fo] fo) cands (Fin float_info_min) None st"
  obtain r st1 where e: "?e = (r, st1)" by (cases ?e)
  from assms e obtain m i where r: "r = Inr (m, Some i)" and i: "i < length fo"
    by (subst (asm) cfs_loop.simps)
       (auto split: sum.splits option.splits prod.splits if_splits)
  from expand_loop_result[OF e[unfolded r]] obtain mp where
    mp: "st1 = st\<lparr>su_features := mp\<rparr>" and g: "np_gt m (Fin float_info_min)"
    by auto
  have "if del_at fo i \<noteq> [] \<and>
        \<not> (5 \<le> length (scores st @ [m]) \<and> stagnation_scan (Fin (- 1)) (last5 (scores st @ [m])))
     then cfs_loop (del_at fo i) (cands @ [fo ! i])
            (st\<lparr>su_features := mp, scores := scores st @ [m]\<rparr>) = (Inr res, st')
     else res = cands @ [fo ! i] \<and> st' = st\<lparr>su_features := mp, scores := scores st @ [m]\<rparr>"
    using assms e r i mp
    by (subst (asm) cfs_loop.simps) (auto simp: Let_def split: if_splits)
  with e r i mp g that show ?thesis by blast
qed

lemma cfs_loop_trace:
  assumes "cfs_loop fo cands st = (Inr res, st')"
    and "\<forall>v \<in> set (scores st). \<not> np_eq v (Fin (- 1))"
  shows "\<exists>new. scores st' = scores st @ new \<and> new \<noteq> [] \<and> length new \<le> length fo \<and>
           length res = length cands + length new \<and>
           (length new = length fo \<or>
              (5 \<le> length (scores st') \<and> non_increasing (last5 (scores st')))) \<and>
           (\<forall>n. length (scores st) < n \<and> n < length (scores st') \<and> 5 \<le> n \<longrightarrow>
                \<not> non_increasing (last5 (take n (scores st'))))"
  using assms
proof (induction "length fo" arbitrary: fo cands st rule: less_induct)
  case less
  from cfs_loop_step[OF less.prems(1)] obtain m i mp where
    s: "i < length fo" "np_gt m (Fin float_info_min)"
       "if del_at fo i \<noteq> [] \<and>
          \<not> (5 \<le> length (scores st @ [m]) \<and> stagnation_scan (Fin (- 1)) (last5 (scores st @ [m])))
        then cfs_loop (del_at fo i) (cands @ [fo ! i])
            (st\<lparr>su_features := mp, scores := scores st @ [m]\<rparr>) = (Inr res, st')
        else res = cands @ [fo ! i] \<and> st' = st\<lparr>su_features := mp, scores := scores st @ [m]\<rparr>"
    by blast
  let ?sc = "scores st @ [m]"
  let ?st2 = "st\<lparr>su_features := mp, scores := ?sc\<rparr>"
  have ns: "\<forall>v \<in> set ?sc. \<not> np_eq v (Fin (- 1))"
    using less.prems(2) above_min_not_sentinel[OF s(2)] by auto
  have scan: "stagnation_scan (Fin (- 1)) (last5 ?sc) = non_increasing (last5 ?sc)"
    using ns last5_set[of ?sc] by (intro stagnation_scan_non_increasing) blast
  have dl: "length (del_at fo i) = length fo - 1" using s(1) by (simp add: del_at_def)
  show ?case
  proof (cases "del_at fo i \<noteq> [] \<and> \<not> (5 \<le> length ?sc \<and> non_increasing (last5 ?sc))")
    case False
    with s(3) scan have e: "res = cands @ [fo ! i]" "st' = ?st2" by auto
    have reason: "length [m] = length fo \<or> (5 \<le> length ?sc \<and> non_increasing (last5 ?sc))"
      using False dl s(1) by (cases "del_at fo i = []") auto
    show ?thesis
    proof (rule exI[of _ "[m]"])
      show "scores st' = scores st @ [m] \<and> [m] \<noteq> [] \<and> length [m] \<le> length fo \<and>
           length res = length cands + length [m] \<and>
           (length [m] = length fo \<or>
              (5 \<le> length (scores st') \<and> non_increasing (last5 (scores st')))) \<and>
           (\<forall>n. length (scores st) < n \<and> n < length (scores st') \<and> 5 \<le> n \<longrightarrow>
                \<not> non_increasing (last5 (take n (scores st'))))"
        using e reason s(1) by auto
    qed
  next
    case True
    with s(3) scan have
      l: "cfs_loop (del_at fo i) (cands @ [fo ! i]) ?st2 = (Inr res, st')" by auto
    have lt: "length (del_at fo i) < length fo" using dl s(1) by simp
    have ns2: "\<forall>v \<in> set (scores ?st2). \<not> np_eq v (Fin (- 1))" using ns by simp
    from less.hyps[OF lt l ns2] obtain new where
      ih: "scores st' = scores ?st2 @ new" "new \<noteq> []" "length new \<le> length (del_at fo i)"
          "length res = length (cands @ [fo ! i]) + length new"
          "length new = length (del_at fo i) \<or>
              (5 \<le> length (scores st') \<and> non_increasing (last5 (scores st')))"
          "\<forall>n. length (scores ?st2) < n \<and> n < length (scores st') \<and> 5 \<le> n \<longrightarrow>
                \<not> non_increasing (last5 (take n (scores st')))"
      by blast
    have a: "scores st' = scores st @ (m # new)" using ih(1) by simp
    have b: "length (m # new) \<le> length fo" using ih(3) dl s(1) by simp
    have c: "length res = length cands + length (m # new)" using ih(4) by simp
    have d: "length (m # new) = length fo \<or>
              (5 \<le> length (scores st') \<and> non_increasing (last5 (scores st')))"
      using ih(5) dl s(1) by auto
    have f: "\<not> non_increasing (last5 (take n (scores st')))"
      if "length (scores st) < n" "n < length (scores st')" "5 \<le> n" for n
    proof (cases "n = length ?sc")
      case eq: True
      then have "take n (scores st') = ?sc" using a by simp
      moreover have "\<not> non_increasing (last5 ?sc)" using True eq that(3) by simp
      ultimately show ?thesis by simp
    next
      case False
      with that(1) have "length (scores ?st2) < n" by simp
      with ih(6) that(2,3) show ?thesis by blast
    qed
    show ?thesis
    proof (rule exI[of _ "m # new"])
      show "scores st' = scores st @ m # new \<and> m # new \<noteq> [] \<and> length (m # new) \<le> length fo \<and>
           length res = length cands + length (m # new) \<and>
           (length (m # new) = length fo \<or>
              (5 \<le> length (scores st') \<and> non_increasing (last5 (scores st')))) \<and>
           (\<forall>n. length (scores st) < n \<and> n < length (scores st') \<and> 5 \<le> n \<longrightarrow>
                \<not> non_increasing (last5 (take n (scores st'))))"
        using a b c d f by blast
    qed
  qed
qed

lemma entropy_0123: "entropy [0, 1, 2, 3 :: int] 2 = Inr (Fin 2)"
  by (simp add: entropy_def unique_counts_def ln4_real)

lemma entropy_pairs_f1y:
  "entropy [(0, 0), (0, 1), (1, 2), (1, 3) :: int \<times> int] 2 = Inr (Fin 2)"
  by (simp add: entropy_def unique_counts_def ln4_real)

lemma entropy_pairs_f2y:
  "entropy [(0, 0), (1, 1), (0, 2), (1, 3) :: int \<times> int] 2 = Inr (Fin 2)"
  by (simp add: entropy_def unique_counts_def ln4_real)

lemma entropy_pairs_f2f1:
  "entropy [(0, 0), (1, 0), (0, 1), (1, 1) :: int \<times> int] 2 = Inr (Fin 2)"
  by (simp add: entropy_def unique_counts_def ln4_real)

lemma su_f1_y: "symmetrical_uncertainty [0, 0, 1, 1 :: int] [0, 1, 2, 3 :: int] = Inr (Fin (2 / 3))"
  by (simp add: symmetrical_uncertainty_def information_gain_def conditional_entropy_def
      np_c_def entropy_0011 entropy_0123 entropy_pairs_f1y np_sub_def)

lemma su_f2_y: "symmetrical_uncertainty [0, 1, 0, 1 :: int] [0, 1, 2, 3 :: int] = Inr (Fin (2 / 3))"
  by (simp add: symmetrical_uncertainty_def information_gain_def conditional_entropy_def
      np_c_def entropy_0101 entropy_0123 entropy_pairs_f2y np_sub_def)

lemma su_f1_f2: "symmetrical_uncertainty [0, 0, 1, 1 :: int] [0, 1, 0, 1 :: int] = Inr (Fin 0)"
  by (simp add: symmetrical_uncertainty_def information_gain_def conditional_entropy_def
      np_c_def entropy_0011 entropy_0101 entropy_pairs_indep np_sub_def)

lemma su_f2_f1: "symmetrical_uncertainty [0, 1, 0, 1 :: int] [0, 0, 1, 1 :: int] = Inr (Fin 0)"
  by (simp add: symmetrical_uncertainty_def information_gain_def conditional_entropy_def
      np_c_def entropy_0011 entropy_0101 entropy_pairs_f2f1 np_sub_def)

lemma argsort6: "argsort [Fin a, Fin a, Fin a, Fin a, Fin a, Fin a] = [0, 1, 2, 3, 4, 5]"
  by (simp add: argsort_def upt_rec numeral_eq_Suc)

lemma float_info_min_small: "float_info_min < 1 / 1000"
proof -
  have "(1000::real) < 2 ^ 10" by simp
  also have "(2::real) ^ 10 \<le> 2 ^ 1022" by (rule power_increasing) simp_all
  finally have "(1::real) / 2 ^ 1022 < 1 / 1000"
    by (simp add: field_simps del: power_numeral)
  then show ?thesis by (simp only: float_info_min_def)
qed

lemma sqrt2_bounds: "1 < sqrt 2" "sqrt 2 < 2"
proof -
  show "1 < sqrt 2" by simp
  show "sqrt 2 < 2" by (rule real_less_lsqrt) simp_all
qed

lemma cmp1: "(4 / sqrt 2 < 2) = False"
proof -
  have "2 * sqrt 2 < 4" using sqrt2_bounds(2) by simp
  then have "2 < 4 / sqrt 2" by (simp add: field_simps)
  then show ?thesis by simp
qed

lemma cmp4: "2 < 4 / sqrt 2"
proof -
  have "2 * sqrt 2 < 4" using sqrt2_bounds(2) by simp
  then show ?thesis by (simp add: field_simps)
qed

lemma cmp2: "float_info_min * 3 < 2"
  using float_info_min_small by simp

lemma cmp3: "float_info_min < 4 / (3 * sqrt 2)"
proof -
  have "3 * sqrt 2 < 6" using sqrt2_bounds(2) by simp
  then have "4 / 6 < 4 / (3 * sqrt 2)" by (intro divide_strict_left_mono) simp_all
  with float_info_min_small show ?thesis by simp
qed

lemma sqrt_upper: "sqrt 40 < 7" "sqrt 125 < 12" "sqrt 306 < 18"
  by (rule real_less_lsqrt; simp)+

lemma sqrt_lower: "6 < sqrt 40" "11 < sqrt 125" "17 < sqrt 306"
  by (rule real_less_rsqrt; simp)+

lemma merit_pos: "0 < 4 / (3 * sqrt 2)" "0 < 8 / (3 * sqrt 40)" "0 < 10 / (3 * sqrt 125)"
  "0 < 4 / sqrt 306"
  by simp_all

lemma cmp_sentinel:
  "(4 / (3 * sqrt 2) = - 1) = False" "(8 / (3 * sqrt 40) = - 1) = False"
  "(10 / (3 * sqrt 125) = - 1) = False" "(4 / sqrt 306 = - 1) = False"
  "(float_info_min < - 1) = False" "(float_info_min = - 1) = False"
proof -
  have ne: "x \<noteq> - 1" if "0 < x" for x :: real using that by linarith
  show "(4 / (3 * sqrt 2) = - 1) = False" using ne[OF merit_pos(1)] by simp
  show "(8 / (3 * sqrt 40) = - 1) = False" using ne[OF merit_pos(2)] by simp
  show "(10 / (3 * sqrt 125) = - 1) = False" using ne[OF merit_pos(3)] by simp
  show "(4 / sqrt 306 = - 1) = False" using ne[OF merit_pos(4)] by simp
  show "(float_info_min < - 1) = False" using float_info_min_pos by simp
  show "(float_info_min = - 1) = False" using ne[OF float_info_min_pos] by simp
qed

lemma cmp_min:
  "float_info_min < 8 / (3 * sqrt 40)" "float_info_min < 10 / (3 * sqrt 125)"
  "float_info_min < 4 / sqrt 306"
proof -
  have "8 / 21 < 8 / (3 * sqrt 40)"
    using sqrt_upper(1) by (intro divide_strict_left_mono) simp_all
  with float_info_min_small show "float_info_min < 8 / (3 * sqrt 40)" by simp
  have "10 / 36 < 10 / (3 * sqrt 125)"
    using sqrt_upper(2) by (intro divide_strict_left_mono) simp_all
  with float_info_min_small show "float_info_min < 10 / (3 * sqrt 125)" by simp
  have "4 / 18 < 4 / sqrt 306"
    using sqrt_upper(3) by (intro divide_strict_left_mono) simp_all
  with float_info_min_small show "float_info_min < 4 / sqrt 306" by simp
qed

lemma argsort7: "argsort [Fin a, Fin a, Fin a, Fin a, Fin a, Fin a, Fin a] = [0, 1, 2, 3, 4, 5, 6]"
  by (simp add: argsort_def upt_rec numeral_eq_Suc)

lemma cmp5: "(2 < 8 / sqrt 40) = False"
proof -
  have "8 / sqrt 40 < 8 / 6" using sqrt_lower(1) by (intro divide_strict_left_mono) simp_all
  then show ?thesis by simp
qed

lemma cmp6: "(8 / (3 * sqrt 40) < 10 / (3 * sqrt 125)) = False"
proof -
  have "8 / 21 < 8 / (3 * sqrt 40)"
    using sqrt_upper(1) by (intro divide_strict_left_mono) simp_all
  moreover have "10 / (3 * sqrt 125) < 10 / 33"
    using sqrt_lower(2) by (intro divide_strict_left_mono) simp_all
  ultimately show ?thesis by simp
qed

lemma cmp7: "(10 / (3 * sqrt 125) < 4 / sqrt 306) = False"
proof -
  have "10 / 36 < 10 / (3 * sqrt 125)"
    using sqrt_upper(2) by (intro divide_strict_left_mono) simp_all
  moreover have "4 / sqrt 306 < 4 / 17"
    using sqrt_lower(3) by (intro divide_strict_left_mono) simp_all
  ultimately show ?thesis by simp
qed

lemma cfs7_run:
  "cfs MFS_new
      [[0, 0, 1, 1], [0, 1, 0, 1], [0, 0, 1, 1], [0, 0, 1, 1], [0, 0, 1, 1], [0, 0, 1, 1],
       [0, 0, 1, 1]]
      [0, 1, 2, 3] =
     (Inr (),
      \<lparr>result = Some [0, 1, 2, 3, 4, 5],
       scores = [Fin (2 / 3), Fin (4 / (3 * sqrt 2)), Fin (2 / 3), Fin (8 / (3 * sqrt 40)),
                 Fin (10 / (3 * sqrt 125)), Fin (4 / sqrt 306)],
       su_labels = Some [Fin (2 / 3), Fin (2 / 3), Fin (2 / 3), Fin (2 / 3), Fin (2 / 3),
                         Fin (2 / 3), Fin (2 / 3)],
       su_features =
         [(0, 1) \<mapsto> Fin 0, (0, 2) \<mapsto> Fin 1, (0, 3) \<mapsto> Fin 1, (0, 4) \<mapsto> Fin 1,
          (0, 5) \<mapsto> Fin 1, (0, 6) \<mapsto> Fin 1, (1, 2) \<mapsto> Fin 0, (1, 3) \<mapsto> Fin 0,
          (1, 4) \<mapsto> Fin 0, (1, 5) \<mapsto> Fin 0, (1, 6) \<mapsto> Fin 0, (2, 3) \<mapsto> Fin 1,
          (2, 4) \<mapsto> Fin 1, (2, 5) \<mapsto> Fin 1, (2, 6) \<mapsto> Fin 1, (3, 4) \<mapsto> Fin 1,
          (3, 5) \<mapsto> Fin 1, (3, 6) \<mapsto> Fin 1, (4, 5) \<mapsto> Fin 1, (4, 6) \<mapsto> Fin 1],
       X_attr = Some [[0, 0, 1, 1], [0, 1, 0, 1], [0, 0, 1, 1], [0, 0, 1, 1], [0, 0, 1, 1],
                      [0, 0, 1, 1], [0, 0, 1, 1]],
       y_attr = Some [0, 1, 2, 3]\<rparr>)"
  by (simp add: cfs_def MFS_new_def initialize_def compute_su_labels_def argsort7
      su_f1_y su_f2_y su_f1_f2 su_f2_f1 su_same cmp1 cmp2 cmp3 cmp4 cmp5 cmp6 cmp7
      cmp_sentinel cmp_min upt_rec del_at_def last5_def
      compute_merit_def compute_su_features_def np_sum_def Let_def power2_eq_square np_gt_def)

text \<open>
  Claim C1. For a non-empty list of \<open>k\<close> candidate features (indices of columns of
  equal length, pairwise cache holding symmetrical uncertainties), the merit is the
  sum of the label scores of the candidates divided by the square root of
  \<open>k + (k\<^sup>2 - k)\<close> times the sum of the symmetrical uncertainties of all pairs of
  candidates; the square root is defined. For \<open>k = 1\<close> the divisor is \<open>sqrt 1\<close> and the
  merit is the label score of the single feature.
\<close>

theorem compute_merit_formula:
  assumes "su_labels st = Some sl" and "X_attr st = Some X" and "features \<noteq> []"
    and "\<forall>f \<in> set features. f < length sl \<and> f < length X"
    and "\<forall>a \<in> set features. \<forall>b \<in> set features. length (X ! a) = length (X ! b)"
    and "\<forall>a b v. su_features st (a, b) = Some v \<longrightarrow>
            symmetrical_uncertainty (X ! a) (X ! b) = Inr v"
  shows "\<exists>sc d st'.
           (\<forall>p \<in> set (combinations2 features).
               symmetrical_uncertainty (X ! fst p) (X ! snd p) = Inr (sc p)) \<and>
           np_sqrt (np_add (Fin (real (length features)))
                     (np_mul (Fin (real (length features ^ 2 - length features)))
                        (np_sum (map sc (combinations2 features))))) = Inr d \<and>
           compute_merit st features =
             (Inr (np_div (np_sum (map (\<lambda>f. sl ! f) features)) d), st') \<and>
           (length features = 1 \<longrightarrow>
              d = Fin (sqrt 1) \<and> compute_merit st features = (Inr (sl ! hd features), st))"
proof -
  have cc: "cache_consistent X (su_features st)"
    using assms(6) by (simp add: cache_consistent_def)
  from compute_merit_consistent[OF assms(1,2,4,5) cc] obtain sc d m where
    r: "\<forall>p \<in> set (combinations2 features).
               symmetrical_uncertainty (X ! fst p) (X ! snd p) = Inr (sc p)"
       "np_sqrt (np_add (Fin (real (length features)))
                     (np_mul (Fin (real (length features ^ 2 - length features)))
                        (np_sum (map sc (combinations2 features))))) = Inr d"
       "compute_merit st features =
             (Inr (np_div (np_sum (map (\<lambda>f. sl ! f) features)) d), st\<lparr>su_features := m\<rparr>)"
    by blast
  have one: "d = Fin (sqrt 1) \<and> compute_merit st features = (Inr (sl ! hd features), st)"
    if "length features = 1"
  proof -
    from that obtain f where f: "features = [f]" by (cases features) auto
    with assms(4) have "f < length sl" by simp
    from compute_merit_single[OF assms(1) this] f
    have "compute_merit st features = (Inr (sl ! hd features), st)" by simp
    moreover have "d = Fin (sqrt 1)" using r(2) f by (simp add: np_sum_def)
    ultimately show ?thesis by simp
  qed
  from r one show ?thesis by blast
qed

theorem compute_merit_formula_witness:
  "su_labels \<lparr>result = None, scores = [], su_labels = Some [Fin 1, Fin 1],
        su_features = [(0, 1) \<mapsto> Fin 1],
        X_attr = Some [[0, 0, 1, 1], [0, 0, 1, 1]], y_attr = Some [0, 0, 1, 1]\<rparr>
     = Some [Fin 1, Fin 1] \<and>
   [0, 1 :: nat] \<noteq> [] \<and>
   (1 :: nat) < length [Fin 1, Fin 1] \<and>
   (1 :: nat) < length [[0, 0, 1, 1], [0, 0, 1, 1 :: int]] \<and>
   [(0 :: nat, 1 :: nat) \<mapsto> Fin 1] (0, 1) = Some (Fin 1) \<and>
   symmetrical_uncertainty ([[0, 0, 1, 1], [0, 0, 1, 1 :: int]] ! 0)
     ([[0, 0, 1, 1], [0, 0, 1, 1 :: int]] ! 1) = Inr (Fin 1) \<and>
   compute_merit \<lparr>result = None, scores = [], su_labels = Some [Fin 1, Fin 1],
        su_features = [(0, 1) \<mapsto> Fin 1],
        X_attr = Some [[0, 0, 1, 1], [0, 0, 1, 1]], y_attr = Some [0, 0, 1, 1]\<rparr> [0, 1]
     = (Inr (np_div (np_add (np_add (Fin 0) (Fin 1)) (Fin 1)) (Fin (sqrt (2 + 2 * 1)))),
        \<lparr>result = None, scores = [], su_labels = Some [Fin 1, Fin 1],
        su_features = [(0, 1) \<mapsto> Fin 1],
        X_attr = Some [[0, 0, 1, 1], [0, 0, 1, 1]], y_attr = Some [0, 0, 1, 1]\<rparr>) \<and>
   length [0 :: nat] = 1 \<and>
   compute_merit \<lparr>result = None, scores = [], su_labels = Some [Fin 1, Fin 1],
        su_features = [(0, 1) \<mapsto> Fin 1],
        X_attr = Some [[0, 0, 1, 1], [0, 0, 1, 1]], y_attr = Some [0, 0, 1, 1]\<rparr> [0]
     = (Inr (Fin 1), \<lparr>result = None, scores = [], su_labels = Some [Fin 1, Fin 1],
        su_features = [(0, 1) \<mapsto> Fin 1],
        X_attr = Some [[0, 0, 1, 1], [0, 0, 1, 1]], y_attr = Some [0, 0, 1, 1]\<rparr>)"
  using compute_merit_formula [of
      "\<lparr>result = None, scores = [], su_labels = Some [Fin 1, Fin 1],
        su_features = [(0, 1) \<mapsto> Fin 1],
        X_attr = Some [[0, 0, 1, 1], [0, 0, 1, 1]], y_attr = Some [0, 0, 1, 1]\<rparr>"
      "[Fin 1, Fin 1]" "[[0, 0, 1, 1], [0, 0, 1, 1]]" "[0, 1]"]
    compute_merit_formula [of
      "\<lparr>result = None, scores = [], su_labels = Some [Fin 1, Fin 1],
        su_features = [(0, 1) \<mapsto> Fin 1],
        X_attr = Some [[0, 0, 1, 1], [0, 0, 1, 1]], y_attr = Some [0, 0, 1, 1]\<rparr>"
      "[Fin 1, Fin 1]" "[[0, 0, 1, 1], [0, 0, 1, 1]]" "[0]"]
  by (simp add: compute_merit_def compute_su_features_def np_sum_def su_same
      power2_eq_square Let_def)

text \<open>
  A run of \<open>cfs\<close> does not always return. The pool is tested for exhaustion only after
  an expansion, and an expansion in which no candidate has a merit above
  \<open>float_info.min\<close> selects nothing and raises; on a matrix with a single feature the
  pool is empty from the start, so the call always raises.
\<close>

lemma cfs_one_feature_raises:
  assumes "length x = length y"
  shows "fst (cfs st [x] y) = Inl TypeError"
proof -
  from su_total[OF assms] obtain v where v: "symmetrical_uncertainty x y = Inr v" ..
  show ?thesis
    by (simp add: cfs_def initialize_def compute_su_labels_def v argsort1 Let_def)
qed

text \<open>
  Claim C2 says that the search of \<open>cfs\<close> stops exactly when the remaining pool is
  exhausted or the last 5 scores are non-increasing. The loop tests the pool only
  after an expansion. On a matrix with one feature the pool is exhausted as soon as
  the search is seeded, and the call raises \<open>TypeError\<close> with one score and no result
  instead of stopping. With two features that tell nothing about the label, no
  candidate has a merit above \<open>float_info.min\<close>, and the call raises after one score
  with a feature still in the pool: the search ends with the pool not exhausted and
  no window of 5 scores.
\<close>

theorem cfs_exhausted_pool_raises:
  "cfs MFS_new [[0, 0, 1, 1]] [0, 0, 1, 1] =
     (Inl TypeError,
      \<lparr>result = None, scores = [Fin 1], su_labels = Some [Fin 1], su_features = Map.empty,
       X_attr = Some [[0, 0, 1, 1]], y_attr = Some [0, 0, 1, 1]\<rparr>) \<and>
   fst (cfs MFS_new [[0, 0, 1, 1], [0, 0, 1, 1]] [0, 1, 0, 1]) = Inl TypeError \<and>
   result (snd (cfs MFS_new [[0, 0, 1, 1], [0, 0, 1, 1]] [0, 1, 0, 1])) = None \<and>
   length (scores (snd (cfs MFS_new [[0, 0, 1, 1], [0, 0, 1, 1]] [0, 1, 0, 1]))) = 1"
proof -
  have one: "cfs MFS_new [[0, 0, 1, 1]] [0, 0, 1, 1] =
     (Inl TypeError,
      \<lparr>result = None, scores = [Fin 1], su_labels = Some [Fin 1], su_features = Map.empty,
       X_attr = Some [[0, 0, 1, 1]], y_attr = Some [0, 0, 1, 1]\<rparr>)"
    by (simp add: cfs_def MFS_new_def initialize_def compute_su_labels_def su_same argsort1
        Let_def)
  have nz: "\<not> float_info_min < 0" using float_info_min_pos by simp
  have two: "cfs MFS_new [[0, 0, 1, 1], [0, 0, 1, 1]] [0, 1, 0, 1] =
     (Inl TypeError,
      \<lparr>result = None, scores = [Fin 0], su_labels = Some [Fin 0, Fin 0],
       su_features = [(0, 1) \<mapsto> Fin 1],
       X_attr = Some [[0, 0, 1, 1], [0, 0, 1, 1]], y_attr = Some [0, 1, 0, 1]\<rparr>)"
    by (simp add: cfs_def MFS_new_def initialize_def compute_su_labels_def su_f1_f2 su_same
        argsort2_eq compute_merit_def compute_su_features_def np_sum_def np_gt_def upt_rec
        Let_def power2_eq_square nz)
  show ?thesis by (simp add: one two)
qed

text \<open>
  The runs of \<open>cfs\<close> that return do follow the rule. The result and the score trace
  have the same length, at most the number of features. The search has stopped
  because the pool is exhausted (every feature is in the result) or because the
  trace has at least 5 scores and its last 5 are non-increasing; and it never
  went on from a trace of at least 5 scores whose last 5 were non-increasing: no
  proper prefix of the trace with at least 5 scores ends in such a window.
\<close>

lemma cfs_stopping_rule_on_return:
  assumes "cfs st X y = (Inr u, st')"
  shows "\<exists>res. result st' = Some res \<and> length res = length (scores st') \<and>
           length res \<le> length X \<and>
           (length res = length X \<or>
              (5 \<le> length (scores st') \<and> non_increasing (last5 (scores st')))) \<and>
           (\<forall>n. 5 \<le> n \<and> n < length (scores st') \<longrightarrow>
                \<not> non_increasing (last5 (take n (scores st'))))"
proof -
  let ?st1 = "(initialize st)\<lparr>X_attr := Some X, y_attr := Some y\<rparr>"
  from assms obtain s_list st2 first fo cands st4 where
    c: "compute_su_labels ?st1 = (Inr s_list, st2)" and
    a: "argsort (map np_neg s_list) = first # fo" and
    l: "cfs_loop fo [first] (st2\<lparr>scores := scores st2 @ [s_list ! first]\<rparr>) = (Inr cands, st4)" and
    e: "st' = st4\<lparr>result := Some cands\<rparr>"
    unfolding cfs_def Let_def
    by (auto split: prod.splits sum.splits list.splits)
  have "X_attr ?st1 = Some X" "y_attr ?st1 = Some y" "su_labels ?st1 = None"
    by (simp_all add: initialize_def)
  from compute_su_labels_result[OF c this] have
    o: "st2 = ?st1\<lparr>su_labels := Some s_list\<rparr>" "length s_list = length X"
       "\<forall>i < length X. symmetrical_uncertainty (X ! i) y = Inr (s_list ! i)"
    by blast+
  let ?st3 = "st2\<lparr>scores := scores st2 @ [s_list ! first]\<rparr>"
  have sc3: "scores ?st3 = [s_list ! first]" using o(1) by (simp add: initialize_def)
  have "first \<in> set (argsort (map np_neg s_list))" using a by simp
  then have fl: "first < length X" using o(2) by (simp add: argsort_set)
  have "length (argsort (map np_neg s_list)) = length s_list" by (simp add: argsort_def)
  then have lf: "Suc (length fo) = length X" using a o(2) by simp
  from o(3) fl have "nonneg_or_nan (s_list ! first)" using su_nonneg_or_nan by blast
  then have ns: "\<forall>v \<in> set (scores ?st3). \<not> np_eq v (Fin (- 1))"
    using sc3 nonneg_or_nan_not_sentinel by simp
  from cfs_loop_trace[OF l ns] obtain new where
    t: "scores st4 = scores ?st3 @ new" "new \<noteq> []" "length new \<le> length fo"
       "length cands = length [first] + length new"
       "length new = length fo \<or>
              (5 \<le> length (scores st4) \<and> non_increasing (last5 (scores st4)))"
       "\<forall>n. length (scores ?st3) < n \<and> n < length (scores st4) \<and> 5 \<le> n \<longrightarrow>
                \<not> non_increasing (last5 (take n (scores st4)))"
    by blast
  have s': "scores st' = scores st4" "result st' = Some cands" using e by simp_all
  have len: "length (scores st4) = 1 + length new" using t(1) sc3 by simp
  show ?thesis
  proof (rule exI[of _ cands])
    show "result st' = Some cands \<and> length cands = length (scores st') \<and>
           length cands \<le> length X \<and>
           (length cands = length X \<or>
              (5 \<le> length (scores st') \<and> non_increasing (last5 (scores st')))) \<and>
           (\<forall>n. 5 \<le> n \<and> n < length (scores st') \<longrightarrow>
                \<not> non_increasing (last5 (take n (scores st'))))"
      using s' len t(3,4,5,6) lf sc3 by auto
  qed
qed

lemma cfs_seven_feature_trace:
  "cfs MFS_new
      [[0, 0, 1, 1], [0, 1, 0, 1], [0, 0, 1, 1], [0, 0, 1, 1], [0, 0, 1, 1], [0, 0, 1, 1],
       [0, 0, 1, 1]]
      [0, 1, 2, 3] =
     (Inr (),
      \<lparr>result = Some [0, 1, 2, 3, 4, 5],
       scores = [Fin (2 / 3), Fin (4 / (3 * sqrt 2)), Fin (2 / 3), Fin (8 / (3 * sqrt 40)),
                 Fin (10 / (3 * sqrt 125)), Fin (4 / sqrt 306)],
       su_labels = Some [Fin (2 / 3), Fin (2 / 3), Fin (2 / 3), Fin (2 / 3), Fin (2 / 3),
                         Fin (2 / 3), Fin (2 / 3)],
       su_features =
         [(0, 1) \<mapsto> Fin 0, (0, 2) \<mapsto> Fin 1, (0, 3) \<mapsto> Fin 1, (0, 4) \<mapsto> Fin 1,
          (0, 5) \<mapsto> Fin 1, (0, 6) \<mapsto> Fin 1, (1, 2) \<mapsto> Fin 0, (1, 3) \<mapsto> Fin 0,
          (1, 4) \<mapsto> Fin 0, (1, 5) \<mapsto> Fin 0, (1, 6) \<mapsto> Fin 0, (2, 3) \<mapsto> Fin 1,
          (2, 4) \<mapsto> Fin 1, (2, 5) \<mapsto> Fin 1, (2, 6) \<mapsto> Fin 1, (3, 4) \<mapsto> Fin 1,
          (3, 5) \<mapsto> Fin 1, (3, 6) \<mapsto> Fin 1, (4, 5) \<mapsto> Fin 1, (4, 6) \<mapsto> Fin 1],
       X_attr = Some [[0, 0, 1, 1], [0, 1, 0, 1], [0, 0, 1, 1], [0, 0, 1, 1], [0, 0, 1, 1],
                      [0, 0, 1, 1], [0, 0, 1, 1]],
       y_attr = Some [0, 1, 2, 3]\<rparr>) \<and>
   length [0, 1, 2, 3, 4, 5 :: nat] < 7 \<and>
   non_increasing (last5 [Fin (2 / 3), Fin (4 / (3 * sqrt 2)), Fin (2 / 3),
       Fin (8 / (3 * sqrt 40)), Fin (10 / (3 * sqrt 125)), Fin (4 / sqrt 306)]) \<and>
   (5 :: nat) \<le> 5 \<and> (5 :: nat) < 6 \<and>
   \<not> non_increasing (last5 (take 5 [Fin (2 / 3), Fin (4 / (3 * sqrt 2)), Fin (2 / 3),
       Fin (8 / (3 * sqrt 40)), Fin (10 / (3 * sqrt 125)), Fin (4 / sqrt 306)]))"
  using cfs_stopping_rule_on_return [OF cfs7_run]
  by (simp add: cfs7_run last5_def np_gt_def cmp1 cmp4 cmp5 cmp6 cmp7)

end
